theory Spec2Isabelle
  imports Complex_Main "HOL-Library.Word"
begin

section \<open>Geometry\<close>

text \<open>
  The C++ \<^verbatim>\<open>float\<close> is modelled by \<^typ>\<open>real\<close>, \<^verbatim>\<open>unsigned\<close> by \<^typ>\<open>32 word\<close>
  and \<^verbatim>\<open>glm::vec3\<close> by a triple. The header that declares \<^verbatim>\<open>Aabb\<close>, \<^verbatim>\<open>Ray\<close> and
  \<^verbatim>\<open>Frustum\<close> (\<^verbatim>\<open>shapes.hpp\<close>) is not among the sources; the few operations of
  \<^verbatim>\<open>Aabb\<close> that \<^verbatim>\<open>bvh.inl\<close> calls are written down from the specification, and
  \<^verbatim>\<open>Ray::intersect\<close> and \<^verbatim>\<open>Frustum::classify\<close> are parameters of the queries.
\<close>

type_synonym vec3 = "real \<times> real \<times> real"

record Aabb =
  min_c :: vec3
  max_c :: vec3

text \<open>\<^verbatim>\<open>glm::min\<close> and \<^verbatim>\<open>glm::max\<close> on vectors work componentwise.\<close>

fun vmin :: "vec3 \<Rightarrow> vec3 \<Rightarrow> vec3" where
  "vmin (a, b, c) (x, y, z) = (min a x, min b y, min c z)"

fun vmax :: "vec3 \<Rightarrow> vec3 \<Rightarrow> vec3" where
  "vmax (a, b, c) (x, y, z) = (max a x, max b y, max c z)"

fun vle :: "vec3 \<Rightarrow> vec3 \<Rightarrow> bool" where
  "vle (a, b, c) (x, y, z) \<longleftrightarrow> a \<le> x \<and> b \<le> y \<and> c \<le> z"

text \<open>Modelled from the spec: the merge constructor \<^verbatim>\<open>Aabb(a, b)\<close> of \<^verbatim>\<open>shapes.hpp\<close>,
  "the elementwise (min(a.min,b.min), max(a.max,b.max))".\<close>

definition Aabb_merge :: "Aabb \<Rightarrow> Aabb \<Rightarrow> Aabb" where
  "Aabb_merge a b = \<lparr>min_c = vmin (min_c a) (min_c b), max_c = vmax (max_c a) (max_c b)\<rparr>"

text \<open>Modelled from the spec: \<^verbatim>\<open>Aabb::volume\<close> of \<^verbatim>\<open>shapes.hpp\<close>, "the product of (max - min)".\<close>

definition volume :: "Aabb \<Rightarrow> real" where
  "volume a = (case (min_c a, max_c a) of ((x0, y0, z0), (x1, y1, z1)) \<Rightarrow>
     (x1 - x0) * (y1 - y0) * (z1 - z0))"

text \<open>Modelled from the spec: \<^verbatim>\<open>Aabb::get_center\<close> of \<^verbatim>\<open>shapes.hpp\<close>, read at one axis.\<close>

definition get_center :: "Aabb \<Rightarrow> nat \<Rightarrow> real" where
  "get_center a axis = (case (min_c a, max_c a) of ((x0, y0, z0), (x1, y1, z1)) \<Rightarrow>
     (if axis = 0 then (x0 + x1) / 2 else if axis = 1 then (y0 + y1) / 2 else (z0 + z1) / 2))"

text \<open>Modelled from the spec: \<^verbatim>\<open>Aabb::longest_axis\<close> of \<^verbatim>\<open>shapes.hpp\<close>, "index of largest
  extent (tie-break: prefer lower-index axis)".\<close>

definition longest_axis :: "Aabb \<Rightarrow> nat" where
  "longest_axis a = (case (min_c a, max_c a) of ((x0, y0, z0), (x1, y1, z1)) \<Rightarrow>
     (if x1 - x0 \<ge> y1 - y0 \<and> x1 - x0 \<ge> z1 - z0 then 0
      else if y1 - y0 \<ge> z1 - z0 then 1 else 2))"

text \<open>The containment test of the invariant: \<open>encloses a b\<close> when \<open>a.min \<le> b.min\<close> and
  \<open>a.max \<ge> b.max\<close> componentwise.\<close>

definition encloses :: "Aabb \<Rightarrow> Aabb \<Rightarrow> bool" where
  "encloses a b \<longleftrightarrow> vle (min_c a) (min_c b) \<and> vle (max_c b) (max_c a)"

section \<open>Objects, nodes and the heap\<close>

text \<open>
  An object handle \<^verbatim>\<open>T = Object*\<close> and a node pointer \<^verbatim>\<open>Node*\<close> are natural numbers;
  \<^verbatim>\<open>nullptr\<close> is \<open>None\<close>. Objects belong to the caller and stay alive, so the object
  store is a total function; nodes are allocated and deleted by the tree, so the node
  store is a partial map and reading a node that is not allocated is an error.
\<close>

datatype error = Invalid_access | Runtime_error string | Out_of_fuel

record Object =
  obj_id :: "32 word"
  obj_bv :: Aabb
  "next" :: "nat option"
  prev :: "nat option"
  node :: "nat option"

record Node =
  bv :: Aabb
  children0 :: "nat option"
  children1 :: "nat option"
  firstObject :: "nat option"
  lastObject :: "nat option"

record Bvh =
  nodes :: "nat \<Rightarrow> Node option"
  objects :: "nat \<Rightarrow> Object"
  free_addr :: nat
  mRoot :: "nat option"
  mObjectCount :: "32 word"

definition set_next :: "nat \<Rightarrow> nat option \<Rightarrow> Bvh \<Rightarrow> Bvh" where
  "set_next h v s = s\<lparr>objects := (objects s)(h := (objects s h)\<lparr>next := v\<rparr>)\<rparr>"

definition set_prev :: "nat \<Rightarrow> nat option \<Rightarrow> Bvh \<Rightarrow> Bvh" where
  "set_prev h v s = s\<lparr>objects := (objects s)(h := (objects s h)\<lparr>prev := v\<rparr>)\<rparr>"

definition set_node :: "nat \<Rightarrow> nat option \<Rightarrow> Bvh \<Rightarrow> Bvh" where
  "set_node h v s = s\<lparr>objects := (objects s)(h := (objects s h)\<lparr>node := v\<rparr>)\<rparr>"

definition upd_Node :: "nat \<Rightarrow> (Node \<Rightarrow> Node) \<Rightarrow> Bvh \<Rightarrow> error + Bvh" where
  "upd_Node a f s = (case nodes s a of None \<Rightarrow> Inl Invalid_access
     | Some n \<Rightarrow> Inr (s\<lparr>nodes := (nodes s)(a \<mapsto> f n)\<rparr>))"

text \<open>\<^verbatim>\<open>new Node(boundingVolume)\<close>: the constructor clears both children and both list ends.\<close>

definition new_Node :: "Aabb \<Rightarrow> Bvh \<Rightarrow> nat \<times> Bvh" where
  "new_Node b s = (free_addr s,
     s\<lparr>nodes := (nodes s)(free_addr s \<mapsto>
          \<lparr>bv = b, children0 = None, children1 = None, firstObject = None, lastObject = None\<rparr>),
       free_addr := Suc (free_addr s)\<rparr>)"

text \<open>\<^verbatim>\<open>Bvh<T>::Bvh()\<close>, over a given object store.\<close>

definition Bvh_init :: "(nat \<Rightarrow> Object) \<Rightarrow> Bvh" where
  "Bvh_init os = \<lparr>nodes = Map.empty, objects = os, free_addr = 0, mRoot = None, mObjectCount = 0\<rparr>"

section \<open>\<^verbatim>\<open>Node::AddObject\<close>\<close>

text \<open>The statements of the source, in their order; each one reads the store the previous
  one left, so that the aliasing of \<open>prev\<close> and \<open>next\<close> is the source's.\<close>

definition unlink_prev :: "nat \<Rightarrow> Bvh \<Rightarrow> Bvh" where
  "unlink_prev object s = (case prev (objects s object) of None \<Rightarrow> s
     | Some p \<Rightarrow> set_prev object None (set_next p (next (objects s object)) s))"

definition unlink_next :: "nat \<Rightarrow> Bvh \<Rightarrow> Bvh" where
  "unlink_next object s = (case next (objects s object) of None \<Rightarrow> s
     | Some n \<Rightarrow> set_next object None (set_prev n (prev (objects s object)) s))"

text \<open>The block "if object is already in another node, extract object out of that node".\<close>

definition detach :: "nat \<Rightarrow> Bvh \<Rightarrow> Bvh" where
  "detach object s =
     (if node (objects s object) \<noteq> None
      then unlink_next object (unlink_prev object s) else s)"

text \<open>The rest of the body: the object becomes the last of the list of \<open>this\<close>.\<close>

definition append_object :: "nat \<Rightarrow> nat \<Rightarrow> Bvh \<Rightarrow> error + Bvh" where
  "append_object this object s =
     (case nodes s this of None \<Rightarrow> Inl Invalid_access
      | Some nd \<Rightarrow>
          let s2 = (if firstObject nd = None
                    then s\<lparr>nodes := (nodes s)(this \<mapsto> nd\<lparr>firstObject := Some object\<rparr>)\<rparr>
                    else s);
              s3 = set_node object (Some this)
                     (set_next object None (set_prev object (lastObject nd) s2));
              s4 = (case lastObject nd of None \<Rightarrow> s3
                    | Some l \<Rightarrow> set_next l (Some object) s3)
          in upd_Node this (\<lambda>n. n\<lparr>lastObject := Some object\<rparr>) s4)"

definition AddObject :: "nat \<Rightarrow> nat \<Rightarrow> Bvh \<Rightarrow> error + Bvh" where
  "AddObject this object s =
     (if node (objects s object) = Some this then Inr s
      else append_object this object (detach object s))"

section \<open>\<^verbatim>\<open>Node\<close> queries\<close>

definition IsLeaf :: "Node \<Rightarrow> bool" where
  "IsLeaf n \<longleftrightarrow> children0 n = None"

text \<open>\<^verbatim>\<open>Node::ObjectCount\<close>: the loop follows \<open>next\<close> from \<open>firstObject\<close>; it does not end on
  a cyclic list, so it takes fuel, one unit for each object visited.\<close>

fun count_objects :: "nat \<Rightarrow> Bvh \<Rightarrow> nat option \<Rightarrow> 32 word \<Rightarrow> error + 32 word" where
  "count_objects fuel s None count = Inr count"
| "count_objects 0 s (Some object) count = Inl Out_of_fuel"
| "count_objects (Suc fuel) s (Some object) count =
     count_objects fuel s (next (objects s object)) (count + 1)"

definition ObjectCount :: "nat \<Rightarrow> Bvh \<Rightarrow> nat \<Rightarrow> error + 32 word" where
  "ObjectCount fuel s this = (case nodes s this of None \<Rightarrow> Inl Invalid_access
     | Some n \<Rightarrow> count_objects fuel s (firstObject n) 0)"

text \<open>\<^verbatim>\<open>Node::Depth\<close> and \<^verbatim>\<open>Node::Size\<close> recurse over the children; the fuel bounds the
  recursion depth. \<^verbatim>\<open>Depth\<close> takes an absent child as depth 0, \<^verbatim>\<open>Size\<close> dereferences both.\<close>

fun Node_Depth :: "nat \<Rightarrow> Bvh \<Rightarrow> nat \<Rightarrow> error + int" where
  "Node_Depth 0 s this = Inl Out_of_fuel"
| "Node_Depth (Suc fuel) s this = (case nodes s this of None \<Rightarrow> Inl Invalid_access
     | Some n \<Rightarrow>
         if IsLeaf n then Inr 0
         else case (case children0 n of None \<Rightarrow> Inr 0 | Some c \<Rightarrow> Node_Depth fuel s c) of
                Inl e \<Rightarrow> Inl e
              | Inr child0Depth \<Rightarrow>
                  (case (case children1 n of None \<Rightarrow> Inr 0 | Some c \<Rightarrow> Node_Depth fuel s c) of
                     Inl e \<Rightarrow> Inl e
                   | Inr child1Depth \<Rightarrow> Inr (1 + max child0Depth child1Depth)))"

fun Node_Size :: "nat \<Rightarrow> Bvh \<Rightarrow> nat option \<Rightarrow> error + int" where
  "Node_Size 0 s this = Inl Out_of_fuel"
| "Node_Size (Suc fuel) s None = Inl Invalid_access"
| "Node_Size (Suc fuel) s (Some this) = (case nodes s this of None \<Rightarrow> Inl Invalid_access
     | Some n \<Rightarrow>
         if IsLeaf n then Inr 1
         else case Node_Size fuel s (children0 n) of Inl e \<Rightarrow> Inl e
              | Inr size0 \<Rightarrow>
                  (case Node_Size fuel s (children1 n) of Inl e \<Rightarrow> Inl e
                   | Inr size1 \<Rightarrow> Inr (1 + size0 + size1)))"

text \<open>\<^verbatim>\<open>Bvh::Depth\<close>, \<^verbatim>\<open>Bvh::Size\<close>, \<^verbatim>\<open>Bvh::root\<close>, \<^verbatim>\<open>Bvh::objectCount\<close>, \<^verbatim>\<open>Bvh::Empty\<close>.\<close>

definition Depth :: "nat \<Rightarrow> Bvh \<Rightarrow> error + int" where
  "Depth fuel s = (case mRoot s of None \<Rightarrow> Inr (- 1) | Some r \<Rightarrow> Node_Depth fuel s r)"

definition Size :: "nat \<Rightarrow> Bvh \<Rightarrow> error + int" where
  "Size fuel s = (case mRoot s of None \<Rightarrow> Inr 0 | Some r \<Rightarrow> Node_Size fuel s (Some r))"

definition root :: "Bvh \<Rightarrow> nat option" where
  "root s = mRoot s"


definition Empty :: "Bvh \<Rightarrow> bool" where
  "Empty s \<longleftrightarrow> mRoot s = None \<and> mObjectCount s = 0"

section \<open>\<^verbatim>\<open>Bvh::Insert\<close> of one object\<close>

record BvhBuildConfig =
  maxDepth :: "32 word"
  minObjects :: "32 word"
  minVolume :: real

text \<open>The default member initialisers of \<^verbatim>\<open>BvhBuildConfig\<close>; 4294967295 is
  \<^verbatim>\<open>std::numeric_limits<unsigned>::max()\<close>.\<close>

definition default_config :: BvhBuildConfig where
  "default_config = \<lparr>maxDepth = 4294967295, minObjects = 10, minVolume = 0\<rparr>"

definition cEpsilon3 :: real where
  "cEpsilon3 = 1 / 1000"

record NodeCosts =
  nc_node :: nat
  rootToNewParentCost :: real
  rootToNodeCost :: real
  level :: "32 word"
  newAabb :: Aabb
  newGeometrics :: real
  newGeometricsChange :: real

text \<open>The constructor \<^verbatim>\<open>NodeCosts(_node, object, costToNode, _level)\<close> reads \<^verbatim>\<open>node->bv\<close>.\<close>

definition mk_NodeCosts :: "Bvh \<Rightarrow> nat option \<Rightarrow> nat \<Rightarrow> real \<Rightarrow> 32 word \<Rightarrow> error + NodeCosts" where
  "mk_NodeCosts s nd object costToNode lv =
     (case nd of None \<Rightarrow> Inl Invalid_access
      | Some a \<Rightarrow> (case nodes s a of None \<Rightarrow> Inl Invalid_access
          | Some n \<Rightarrow>
              let na = Aabb_merge (bv n) (obj_bv (objects s object));
                  ng = volume na;
                  ngc = ng - volume (bv n)
              in Inr \<lparr>nc_node = a, rootToNewParentCost = ng + costToNode,
                      rootToNodeCost = costToNode + ngc, level = lv,
                      newAabb = na, newGeometrics = ng, newGeometricsChange = ngc\<rparr>))"

text \<open>The comparator of the priority queue: \<open>compareCheapest lhs rhs\<close> puts \<open>lhs\<close> below
  \<open>rhs\<close>.\<close>

definition compareCheapest :: "NodeCosts \<Rightarrow> NodeCosts \<Rightarrow> bool" where
  "compareCheapest lhs rhs =
     (if level lhs \<noteq> level rhs then level lhs < level rhs
      else newGeometricsChange lhs > newGeometricsChange rhs)"

text \<open>\<^verbatim>\<open>std::priority_queue\<close> as the list of its elements in the order they were pushed.
  \<open>pq_extract\<close> is \<^verbatim>\<open>top()\<close> followed by \<^verbatim>\<open>pop()\<close>: it returns an element that the
  comparator puts below no other, and the remaining elements. Among elements that the
  comparator does not order the standard leaves the choice open; the model takes the one
  pushed first, which is what a binary heap does for the two children pushed in one
  iteration.\<close>

fun pq_extract :: "NodeCosts \<Rightarrow> NodeCosts list \<Rightarrow> NodeCosts \<times> NodeCosts list" where
  "pq_extract best [] = (best, [])"
| "pq_extract best (y # ys) =
     (if compareCheapest best y
      then (case pq_extract y ys of (t, r) \<Rightarrow> (t, best # r))
      else (case pq_extract best ys of (t, r) \<Rightarrow> (t, y # r)))"

text \<open>The search loop of \<^verbatim>\<open>Insert\<close>. The result is \<^verbatim>\<open>cheapestPath\<close>,
  \<^verbatim>\<open>smallestCostIndex\<close> and \<^verbatim>\<open>leafNode\<close> (which points at the last element of
  \<^verbatim>\<open>cheapestPath\<close> when it is set). One unit of fuel for each iteration.\<close>

fun search :: "nat \<Rightarrow> Bvh \<Rightarrow> nat \<Rightarrow> NodeCosts list \<Rightarrow> NodeCosts list \<Rightarrow> nat \<Rightarrow> nat
    \<Rightarrow> error + (NodeCosts list \<times> nat \<times> NodeCosts option)" where
  "search fuel s object [] cheapestPath smallestCostIndex index =
     Inr (cheapestPath, smallestCostIndex, None)"
| "search 0 s object (q # qs) cheapestPath smallestCostIndex index = Inl Out_of_fuel"
| "search (Suc fuel) s object (q # qs) cheapestPath smallestCostIndex index =
     (case pq_extract q qs of (nodeCost, rest) \<Rightarrow>
        let path = cheapestPath @ [nodeCost];
            sci = (if rootToNewParentCost nodeCost
                        \<le> rootToNewParentCost (path ! smallestCostIndex) + cEpsilon3
                   then index else smallestCostIndex)
        in case nodes s (nc_node nodeCost) of None \<Rightarrow> Inl Invalid_access
           | Some n \<Rightarrow>
               if IsLeaf n then Inr (path, sci, Some nodeCost)
               else case mk_NodeCosts s (children0 n) object (rootToNodeCost nodeCost)
                           (level nodeCost + 1) of
                      Inl e \<Rightarrow> Inl e
                    | Inr c0 \<Rightarrow>
                        (case mk_NodeCosts s (children1 n) object (rootToNodeCost nodeCost)
                                (level nodeCost + 1) of
                           Inl e \<Rightarrow> Inl e
                         | Inr c1 \<Rightarrow> search fuel s object (rest @ [c0, c1]) path sci (Suc index)))"

text \<open>\<^verbatim>\<open>for (auto& nodeCost : path) nodeCost.node->bv = nodeCost.newAabb;\<close>\<close>

fun commit_path :: "NodeCosts list \<Rightarrow> Bvh \<Rightarrow> error + Bvh" where
  "commit_path [] s = Inr s"
| "commit_path (nodeCost # rest) s =
     (case upd_Node (nc_node nodeCost) (\<lambda>n. n\<lparr>bv := newAabb nodeCost\<rparr>) s of
        Inl e \<Rightarrow> Inl e
      | Inr s' \<Rightarrow> commit_path rest s')"

text \<open>The two places where \<^verbatim>\<open>Insert\<close> appends to the leaf run the same statements.\<close>

definition append_to_leaf :: "NodeCosts list \<Rightarrow> NodeCosts \<Rightarrow> nat \<Rightarrow> Bvh \<Rightarrow> error + Bvh" where
  "append_to_leaf cheapestPath leafNode object s =
     (case commit_path cheapestPath s of Inl e \<Rightarrow> Inl e
      | Inr s' \<Rightarrow> AddObject (nc_node leafNode) object s')"

definition set_child :: "nat \<Rightarrow> nat option \<Rightarrow> Node \<Rightarrow> Node" where
  "set_child k c n = (if k = 0 then n\<lparr>children0 := c\<rparr> else n\<lparr>children1 := c\<rparr>)"

definition get_child :: "nat \<Rightarrow> Node \<Rightarrow> nat option" where
  "get_child k n = (if k = 0 then children0 n else children1 n)"

text \<open>The tail of \<^verbatim>\<open>Insert\<close>: a new root above the old one, or a new internal node in the
  slot of the parent that held \<^verbatim>\<open>cheapestPath[smallestCostIndex].node\<close>.\<close>

definition new_root :: "NodeCosts \<Rightarrow> nat \<Rightarrow> Bvh \<Rightarrow> error + Bvh" where
  "new_root best object s =
     (case new_Node (newAabb best) s of (r, s1) \<Rightarrow>
        case upd_Node r (\<lambda>n. n\<lparr>children0 := Some (nc_node best)\<rparr>) (s1\<lparr>mRoot := Some r\<rparr>) of
          Inl e \<Rightarrow> Inl e
        | Inr s2 \<Rightarrow>
            (case new_Node (obj_bv (objects s2 object)) s2 of (l, s3) \<Rightarrow>
               case upd_Node r (\<lambda>n. n\<lparr>children1 := Some l\<rparr>) s3 of
                 Inl e \<Rightarrow> Inl e
               | Inr s4 \<Rightarrow> AddObject l object s4))"

definition new_internal :: "NodeCosts list \<Rightarrow> nat \<Rightarrow> nat \<Rightarrow> Bvh \<Rightarrow> error + Bvh" where
  "new_internal cheapestPath smallestCostIndex object s =
     (case commit_path (take smallestCostIndex cheapestPath) s of Inl e \<Rightarrow> Inl e
      | Inr s1 \<Rightarrow>
          if smallestCostIndex = 0 then Inl Invalid_access
          else
            let best = cheapestPath ! smallestCostIndex;
                parentNode = nc_node (cheapestPath ! (smallestCostIndex - 1))
            in case nodes s1 parentNode of None \<Rightarrow> Inl Invalid_access
               | Some p \<Rightarrow>
                   let child = (if children0 p \<noteq> Some (nc_node best) then 1 else 0 :: nat)
                   in case new_Node (newAabb best) s1 of (m, s2) \<Rightarrow>
                        case upd_Node parentNode (set_child child (Some m)) s2 of
                          Inl e \<Rightarrow> Inl e
                        | Inr s3 \<Rightarrow>
                            (case upd_Node m (set_child child (Some (nc_node best))) s3 of
                               Inl e \<Rightarrow> Inl e
                             | Inr s4 \<Rightarrow>
                                 (case new_Node (obj_bv (objects s4 object)) s4 of (l, s5) \<Rightarrow>
                                    case upd_Node m (set_child (1 - child) (Some l)) s5 of
                                      Inl e \<Rightarrow> Inl e
                                    | Inr s6 \<Rightarrow> AddObject l object s6)))"

definition create_parent :: "NodeCosts list \<Rightarrow> nat \<Rightarrow> nat \<Rightarrow> Bvh \<Rightarrow> error + Bvh" where
  "create_parent cheapestPath smallestCostIndex object s =
     (if Some (nc_node (cheapestPath ! smallestCostIndex)) = mRoot s
      then new_root (cheapestPath ! smallestCostIndex) object s
      else new_internal cheapestPath smallestCostIndex object s)"

text \<open>What \<^verbatim>\<open>Insert\<close> does once the search has returned.\<close>

definition place :: "nat \<Rightarrow> BvhBuildConfig \<Rightarrow> nat \<Rightarrow> NodeCosts list \<Rightarrow> nat \<Rightarrow> NodeCosts option
    \<Rightarrow> Bvh \<Rightarrow> error + Bvh" where
  "place fuel config object cheapestPath smallestCostIndex leafNode s =
     (case leafNode of
        None \<Rightarrow> create_parent cheapestPath smallestCostIndex object s
      | Some leaf \<Rightarrow>
          if rootToNodeCost leaf < rootToNewParentCost (cheapestPath ! smallestCostIndex)
          then (case ObjectCount fuel s (nc_node leaf) of Inl e \<Rightarrow> Inl e
                | Inr cnt \<Rightarrow>
                    if cnt < minObjects config \<or> level leaf \<ge> maxDepth config
                    then append_to_leaf cheapestPath leaf object s
                    else if volume (newAabb leaf) \<ge> minVolume config
                            \<and> newGeometricsChange leaf > 0
                    then create_parent cheapestPath (length cheapestPath - 1) object s
                    else append_to_leaf cheapestPath leaf object s)
          else create_parent cheapestPath smallestCostIndex object s)"

definition Insert :: "nat \<Rightarrow> nat \<Rightarrow> BvhBuildConfig \<Rightarrow> Bvh \<Rightarrow> error + Bvh" where
  "Insert fuel object config s0 =
     (let s = s0\<lparr>mObjectCount := mObjectCount s0 + 1\<rparr>
      in case mRoot s of
           None \<Rightarrow>
             (case new_Node (obj_bv (objects s object)) s of (r, s1) \<Rightarrow>
                AddObject r object (s1\<lparr>mRoot := Some r\<rparr>))
         | Some r \<Rightarrow>
             (case mk_NodeCosts s (Some r) object 0 0 of Inl e \<Rightarrow> Inl e
              | Inr nc \<Rightarrow>
                  (case search fuel s object [nc] [] 0 0 of Inl e \<Rightarrow> Inl e
                   | Inr (cheapestPath, smallestCostIndex, leafNode) \<Rightarrow>
                       place fuel config object cheapestPath smallestCostIndex leafNode s)))"

text \<open>\<^verbatim>\<open>Insert(begin, end, config)\<close>: one \<^verbatim>\<open>Insert\<close> for each element, in order.\<close>

fun Insert_range :: "nat \<Rightarrow> nat list \<Rightarrow> BvhBuildConfig \<Rightarrow> Bvh \<Rightarrow> error + Bvh" where
  "Insert_range fuel [] config s = Inr s"
| "Insert_range fuel (object # rest) config s =
     (case Insert fuel object config s of Inl e \<Rightarrow> Inl e
      | Inr s' \<Rightarrow> Insert_range fuel rest config s')"


section \<open>Level-order traversals\<close>


text \<open>The inner loop of \<^verbatim>\<open>TraverseLevelOrderObjects\<close>: \<open>next\<close> is read before \<^verbatim>\<open>func\<close> runs.\<close>

fun walk_objects :: "nat \<Rightarrow> (nat \<Rightarrow> Bvh \<times> 'a \<Rightarrow> Bvh \<times> 'a) \<Rightarrow> nat option
    \<Rightarrow> Bvh \<times> 'a \<Rightarrow> error + Bvh \<times> 'a" where
  "walk_objects fuel func None st = Inr st"
| "walk_objects 0 func (Some object) st = Inl Out_of_fuel"
| "walk_objects (Suc fuel) func (Some object) st =
     (let nxt = next (objects (fst st) object)
      in walk_objects fuel func nxt (func object st))"

fun TraverseLevelOrderObjects :: "nat \<Rightarrow> (nat \<Rightarrow> Bvh \<times> 'a \<Rightarrow> Bvh \<times> 'a) \<Rightarrow> nat list
    \<Rightarrow> Bvh \<times> 'a \<Rightarrow> error + Bvh \<times> 'a" where
  "TraverseLevelOrderObjects fuel func [] st = Inr st"
| "TraverseLevelOrderObjects 0 func (a # queue) st = Inl Out_of_fuel"
| "TraverseLevelOrderObjects (Suc fuel) func (a # queue) st =
     (case nodes (fst st) a of None \<Rightarrow> Inl Invalid_access
      | Some n \<Rightarrow>
          let queue' = queue @ (case children0 n of None \<Rightarrow> [] | Some c \<Rightarrow> [c])
                             @ (case children1 n of None \<Rightarrow> [] | Some c \<Rightarrow> [c])
          in if \<not> IsLeaf n then TraverseLevelOrderObjects fuel func queue' st
             else case walk_objects fuel func (firstObject n) st of Inl e \<Rightarrow> Inl e
                  | Inr st' \<Rightarrow> TraverseLevelOrderObjects fuel func queue' st')"

section \<open>\<^verbatim>\<open>Bvh::Clear\<close>\<close>




section \<open>\<^verbatim>\<open>Bvh::BuildTopDown\<close>\<close>

text \<open>The range holds handles that may be null. The first is tested against \<^verbatim>\<open>nullptr\<close>;
  the loop that computes the bounds dereferences all the others. \<^verbatim>\<open>std::sort\<close> is
  modelled by the stable \<^const>\<open>sort_key\<close> (the order \<^verbatim>\<open>std::sort\<close> gives to objects with
  equal centres is not fixed by the standard), and the split index
  \<^verbatim>\<open>int(float(size) * 0.5f)\<close> by \<open>size div 2\<close>. One unit of fuel for each level of the
  recursion; the same fuel bounds \<^verbatim>\<open>mRoot->Depth()\<close>.\<close>

fun add_objects :: "nat \<Rightarrow> nat list \<Rightarrow> Bvh \<Rightarrow> error + Bvh" where
  "add_objects this [] s = Inr s"
| "add_objects this (object # rest) s =
     (case AddObject this object s of Inl e \<Rightarrow> Inl e | Inr s' \<Rightarrow> add_objects this rest s')"

definition attach :: "nat option \<Rightarrow> nat \<Rightarrow> Bvh \<Rightarrow> error + Bvh" where
  "attach parentNode workingNode s =
     (case parentNode of
        Some p \<Rightarrow>
          (case nodes s p of None \<Rightarrow> Inl Invalid_access
           | Some pn \<Rightarrow>
               if children0 pn = None
               then upd_Node p (\<lambda>n. n\<lparr>children0 := Some workingNode\<rparr>) s
               else if children1 pn = None
               then upd_Node p (\<lambda>n. n\<lparr>children1 := Some workingNode\<rparr>) s
               else Inl (Runtime_error ''bvh.inl: node already have 2 children''))
      | None \<Rightarrow> Inr (s\<lparr>mRoot := Some workingNode\<rparr>))"

definition clear_former_node :: "nat \<Rightarrow> Bvh \<Rightarrow> error + Bvh" where
  "clear_former_node object s =
     (case node (objects s object) of None \<Rightarrow> Inr s
      | Some a \<Rightarrow> upd_Node a (\<lambda>n. n\<lparr>firstObject := None, lastObject := None\<rparr>) s)"

fun BuildTopDown :: "nat \<Rightarrow> nat option list \<Rightarrow> BvhBuildConfig \<Rightarrow> nat option \<Rightarrow> Bvh
    \<Rightarrow> error + Bvh" where
  "BuildTopDown 0 rng config parentNode s = Inl Out_of_fuel"
| "BuildTopDown (Suc fuel) [] config parentNode s = Inr s"
| "BuildTopDown (Suc fuel) (None # rest) config parentNode s = Inr s"
| "BuildTopDown (Suc fuel) (Some first # rest) config parentNode s =
     (case those rest of None \<Rightarrow> Inl Invalid_access
      | Some others \<Rightarrow>
          let objs = first # others;
              countObject = (of_nat (length objs) :: 32 word);
              maxPoint = foldl (\<lambda>m object. vmax m (max_c (obj_bv (objects s object))))
                           (max_c (obj_bv (objects s first))) others;
              minPoint = foldl (\<lambda>m object. vmin m (min_c (obj_bv (objects s object))))
                           (min_c (obj_bv (objects s first))) others
          in case new_Node \<lparr>min_c = minPoint, max_c = maxPoint\<rparr> s of (workingNode, s1) \<Rightarrow>
               case attach parentNode workingNode s1 of Inl e \<Rightarrow> Inl e
               | Inr s2 \<Rightarrow>
                   let s3 = (if Some workingNode = mRoot s2
                             then s2\<lparr>mObjectCount := countObject\<rparr> else s2)
                   in case mRoot s3 of None \<Rightarrow> Inl Invalid_access
                      | Some r \<Rightarrow>
                          (case Node_Depth fuel s3 r of Inl e \<Rightarrow> Inl e
                           | Inr d \<Rightarrow>
                               let currentDepth = (word_of_int d :: 32 word)
                               in if countObject \<le> minObjects config
                                     \<or> volume \<lparr>min_c = minPoint, max_c = maxPoint\<rparr> \<le> minVolume config
                                     \<or> currentDepth \<ge> maxDepth config
                                  then (case clear_former_node first s3 of Inl e \<Rightarrow> Inl e
                                        | Inr s4 \<Rightarrow> add_objects workingNode objs s4)
                                  else
                                    let axis = longest_axis \<lparr>min_c = minPoint, max_c = maxPoint\<rparr>;
                                        sorted = sort_key (\<lambda>object. get_center
                                                   (obj_bv (objects s3 object)) axis) objs;
                                        splitIndex = length sorted div 2;
                                        split1 = take splitIndex sorted;
                                        split2 = drop splitIndex sorted
                                    in case BuildTopDown fuel (map Some split1) config
                                              (Some workingNode) s3 of
                                         Inl e \<Rightarrow> Inl e
                                       | Inr s5 \<Rightarrow> BuildTopDown fuel (map Some split2) config
                                                     (Some workingNode) s5))"

section \<open>\<^verbatim>\<open>Bvh::Query\<close>\<close>

datatype SideResult = eINSIDE | eINTERSECTING | eOUTSIDE

definition retrieveIds :: "nat \<Rightarrow> Bvh \<times> 32 word list \<Rightarrow> Bvh \<times> 32 word list" where
  "retrieveIds obj st = (fst st, snd st @ [obj_id (objects (fst st) obj)])"

text \<open>The object loop of an intersecting leaf.\<close>

fun query_leaf :: "nat \<Rightarrow> (Aabb \<Rightarrow> SideResult) \<Rightarrow> Bvh \<Rightarrow> nat option \<Rightarrow> 32 word list
    \<Rightarrow> error + 32 word list" where
  "query_leaf fuel classify s None objectsIds = Inr objectsIds"
| "query_leaf 0 classify s (Some object) objectsIds = Inl Out_of_fuel"
| "query_leaf (Suc fuel) classify s (Some object) objectsIds =
     query_leaf fuel classify s (next (objects s object))
       (if classify (obj_bv (objects s object)) \<noteq> eOUTSIDE
        then objectsIds @ [obj_id (objects s object)] else objectsIds)"

text \<open>The stack loop; the head of the list is the top of the stack. A null pointer on the
  stack ends the whole loop (\<^verbatim>\<open>break\<close>).\<close>

fun query_loop :: "nat \<Rightarrow> (Aabb \<Rightarrow> SideResult) \<Rightarrow> Bvh \<Rightarrow> nat option list \<Rightarrow> 32 word list
    \<Rightarrow> error + 32 word list" where
  "query_loop fuel classify s [] objectsIds = Inr objectsIds"
| "query_loop 0 classify s (a # stack) objectsIds = Inl Out_of_fuel"
| "query_loop (Suc fuel) classify s (None # stack) objectsIds = Inr objectsIds"
| "query_loop (Suc fuel) classify s (Some a # stack) objectsIds =
     (case nodes s a of None \<Rightarrow> Inl Invalid_access
      | Some n \<Rightarrow>
          (case classify (bv n) of
             eOUTSIDE \<Rightarrow> query_loop fuel classify s stack objectsIds
           | eINSIDE \<Rightarrow>
               (case TraverseLevelOrderObjects fuel retrieveIds [a] (s, objectsIds) of
                  Inl e \<Rightarrow> Inl e
                | Inr st \<Rightarrow> query_loop fuel classify s stack (snd st))
           | eINTERSECTING \<Rightarrow>
               if IsLeaf n
               then (case query_leaf fuel classify s (firstObject n) objectsIds of
                       Inl e \<Rightarrow> Inl e
                     | Inr ids \<Rightarrow> query_loop fuel classify s stack ids)
               else query_loop fuel classify s (children1 n # children0 n # stack) objectsIds))"

definition Query :: "nat \<Rightarrow> (Aabb \<Rightarrow> SideResult) \<Rightarrow> Bvh \<Rightarrow> error + 32 word list" where
  "Query fuel classify s = query_loop fuel classify s [mRoot s] []"

section \<open>\<^verbatim>\<open>Bvh::QueryDebug\<close>\<close>

text \<open>The variables that the recursive lambda captures by reference.\<close>

record ray_vars =
  closestIntersect :: int
  bvhShortestTime :: real
  allIntersectedObjects :: "32 word list"
  debug_tested_nodes :: "nat list"

text \<open>\<^verbatim>\<open>std::numeric_limits<float>::max()\<close>.\<close>

definition FLT_MAX :: real where
  "FLT_MAX = 340282346638528859811704183484516925440"

text \<open>The object loop of a leaf. \<^verbatim>\<open>static_cast<int>(object->id)\<close> reads the 32 bits of the
  id as a signed integer.\<close>

fun ray_leaf :: "nat \<Rightarrow> (Aabb \<Rightarrow> real) \<Rightarrow> bool \<Rightarrow> Bvh \<Rightarrow> nat option \<Rightarrow> real \<Rightarrow> ray_vars
    \<Rightarrow> error + real \<times> ray_vars" where
  "ray_leaf fuel intersect closest_only s None nodeShortestTime v = Inr (nodeShortestTime, v)"
| "ray_leaf 0 intersect closest_only s (Some object) nodeShortestTime v = Inl Out_of_fuel"
| "ray_leaf (Suc fuel) intersect closest_only s (Some object) nodeShortestTime v =
     (let time = intersect (obj_bv (objects s object))
      in if time \<ge> 0
         then
           let v1 = (if \<not> closest_only
                     then v\<lparr>allIntersectedObjects :=
                              allIntersectedObjects v @ [obj_id (objects s object)]\<rparr>
                     else v);
               t1 = (if time < nodeShortestTime then time else nodeShortestTime);
               v2 = (if time < bvhShortestTime v1
                     then v1\<lparr>bvhShortestTime := time,
                             closestIntersect := sint (obj_id (objects s object))\<rparr>
                     else v1)
           in ray_leaf fuel intersect closest_only s (next (objects s object)) t1 v2
         else ray_leaf fuel intersect closest_only s (next (objects s object))
                nodeShortestTime v)"

text \<open>The child tests at an internal node: each present child is recorded and tested.\<close>

definition test_child :: "(Aabb \<Rightarrow> real) \<Rightarrow> Bvh \<Rightarrow> nat option \<Rightarrow> ray_vars
    \<Rightarrow> error + real \<times> ray_vars" where
  "test_child intersect s c v =
     (case c of None \<Rightarrow> Inr (- 1, v)
      | Some a \<Rightarrow> (case nodes s a of None \<Rightarrow> Inl Invalid_access
          | Some n \<Rightarrow> Inr (intersect (bv n),
                          v\<lparr>debug_tested_nodes := debug_tested_nodes v @ [a]\<rparr>)))"

text \<open>The recursive lambda \<^verbatim>\<open>QueryNodesRay\<close>; \<open>visit_second\<close> is the shared shape of the
  two branches taken when both children are hit.\<close>

fun QueryNodesRay :: "nat \<Rightarrow> (Aabb \<Rightarrow> real) \<Rightarrow> bool \<Rightarrow> Bvh \<Rightarrow> nat option \<Rightarrow> ray_vars
    \<Rightarrow> error + real \<times> ray_vars" where
  "QueryNodesRay 0 intersect closest_only s nd v = Inl Out_of_fuel"
| "QueryNodesRay (Suc fuel) intersect closest_only s None v = Inl Invalid_access"
| "QueryNodesRay (Suc fuel) intersect closest_only s (Some a) v =
     (case nodes s a of None \<Rightarrow> Inl Invalid_access
      | Some n \<Rightarrow>
          if IsLeaf n
          then ray_leaf fuel intersect closest_only s (firstObject n) FLT_MAX v
          else
            case test_child intersect s (children0 n) v of Inl e \<Rightarrow> Inl e
            | Inr (childFirstT, v1) \<Rightarrow>
                (case test_child intersect s (children1 n) v1 of Inl e \<Rightarrow> Inl e
                 | Inr (childSecondT, v2) \<Rightarrow>
                     if childFirstT < 0 \<and> childSecondT < 0 then Inr (- 1, v2)
                     else if childFirstT \<ge> 0 \<and> childSecondT \<ge> 0
                     then
                       if childFirstT < childSecondT
                       then (case QueryNodesRay fuel intersect closest_only s (children0 n) v2 of
                               Inl e \<Rightarrow> Inl e
                             | Inr (time, v3) \<Rightarrow>
                                 if \<not> closest_only \<or> time < 0 \<or> time > childSecondT
                                 then (case QueryNodesRay fuel intersect closest_only s
                                              (children1 n) v3 of
                                         Inl e \<Rightarrow> Inl e
                                       | Inr (time', v4) \<Rightarrow> Inr (min time' time, v4))
                                 else Inr (time, v3))
                       else (case QueryNodesRay fuel intersect closest_only s (children1 n) v2 of
                               Inl e \<Rightarrow> Inl e
                             | Inr (time, v3) \<Rightarrow>
                                 if \<not> closest_only \<or> time < 0 \<or> time > childFirstT
                                 then (case QueryNodesRay fuel intersect closest_only s
                                              (children0 n) v3 of
                                         Inl e \<Rightarrow> Inl e
                                       | Inr (time', v4) \<Rightarrow> Inr (min time' time, v4))
                                 else Inr (time, v3))
                     else if childFirstT \<ge> 0
                     then QueryNodesRay fuel intersect closest_only s (children0 n) v2
                     else if childSecondT \<ge> 0
                     then QueryNodesRay fuel intersect closest_only s (children1 n) v2
                     else Inr (- 1, v2)))"

text \<open>The result is the returned optional, \<^verbatim>\<open>allIntersectedObjects\<close> and
  \<^verbatim>\<open>debug_tested_nodes\<close>.\<close>

definition QueryDebug :: "nat \<Rightarrow> (Aabb \<Rightarrow> real) \<Rightarrow> bool \<Rightarrow> Bvh
    \<Rightarrow> error + (32 word option \<times> 32 word list \<times> nat list)" where
  "QueryDebug fuel intersect closest_only s =
     (case mRoot s of None \<Rightarrow> Inr (None, [], [])
      | Some r \<Rightarrow>
          (case nodes s r of None \<Rightarrow> Inl Invalid_access
           | Some n \<Rightarrow>
               let v0 = \<lparr>closestIntersect = - 1, bvhShortestTime = FLT_MAX,
                         allIntersectedObjects = [], debug_tested_nodes = [r]\<rparr>
               in case (if intersect (bv n) \<ge> 0
                        then (case QueryNodesRay fuel intersect closest_only s (Some r) v0 of
                                Inl e \<Rightarrow> Inl e | Inr (t, v) \<Rightarrow> Inr v)
                        else Inr v0) of
                    Inl e \<Rightarrow> Inl e
                  | Inr v \<Rightarrow>
                      if closestIntersect v < 0
                      then Inr (None, allIntersectedObjects v, debug_tested_nodes v)
                      else Inr (Some (word_of_int (closestIntersect v)),
                                if closest_only then [word_of_int (closestIntersect v)]
                                else allIntersectedObjects v,
                                debug_tested_nodes v)))"

section \<open>Abstraction: paths, trees and lists in the heap\<close>

text \<open>\<open>is_child s a b\<close>: node \<open>b\<close> sits in a child slot of node \<open>a\<close>. A chain is a list of
  nodes each of which is a child of the one before.\<close>

definition is_child :: "Bvh \<Rightarrow> nat \<Rightarrow> nat \<Rightarrow> bool" where
  "is_child s a b = (case nodes s a of None \<Rightarrow> False
     | Some n \<Rightarrow> children0 n = Some b \<or> children1 n = Some b)"

fun child_chain :: "Bvh \<Rightarrow> nat list \<Rightarrow> bool" where
  "child_chain s (a # b # rest) = (is_child s a b \<and> child_chain s (b # rest))"
| "child_chain s [a] = True"
| "child_chain s [] = True"

definition root_to_leaf :: "Bvh \<Rightarrow> nat list \<Rightarrow> bool" where
  "root_to_leaf s p = (p \<noteq> [] \<and> mRoot s = Some (hd p) \<and> child_chain s p
     \<and> (case nodes s (last p) of None \<Rightarrow> False | Some n \<Rightarrow> IsLeaf n))"

text \<open>The branch that \<^verbatim>\<open>Insert\<close> takes after the search, read off the conditions of
  \<^const>\<open>place\<close>: append to the leaf, or give the node at an index of \<^verbatim>\<open>cheapestPath\<close> a
  new parent.\<close>

datatype placement = Append_leaf | New_parent nat

definition placement_of :: "nat \<Rightarrow> BvhBuildConfig \<Rightarrow> NodeCosts list \<Rightarrow> nat \<Rightarrow> NodeCosts option
    \<Rightarrow> Bvh \<Rightarrow> error + placement" where
  "placement_of fuel config cheapestPath smallestCostIndex leafNode s =
     (case leafNode of
        None \<Rightarrow> Inr (New_parent smallestCostIndex)
      | Some leaf \<Rightarrow>
          if rootToNodeCost leaf < rootToNewParentCost (cheapestPath ! smallestCostIndex)
          then (case ObjectCount fuel s (nc_node leaf) of Inl e \<Rightarrow> Inl e
                | Inr cnt \<Rightarrow>
                    if cnt < minObjects config \<or> level leaf \<ge> maxDepth config
                    then Inr Append_leaf
                    else if volume (newAabb leaf) \<ge> minVolume config
                            \<and> newGeometricsChange leaf > 0
                    then Inr (New_parent (length cheapestPath - 1))
                    else Inr Append_leaf)
          else Inr (New_parent smallestCostIndex))"

text \<open>A cost record is valid when its node is allocated and \<open>newAabb\<close> is the merge of the
  node's box with the object's; the queue is in order when every element is either a child
  of the last node of the path, one level below it, or not below that node's level.\<close>

definition valid_nc :: "Bvh \<Rightarrow> nat \<Rightarrow> NodeCosts \<Rightarrow> bool" where
  "valid_nc s object c = (case nodes s (nc_node c) of None \<Rightarrow> False
     | Some n \<Rightarrow> newAabb c = Aabb_merge (bv n) (obj_bv (objects s object)))"

definition queue_ok :: "Bvh \<Rightarrow> NodeCosts \<Rightarrow> NodeCosts list \<Rightarrow> bool" where
  "queue_ok s lst queue \<longleftrightarrow>
     (\<forall>x \<in> set queue. (level x = level lst + 1 \<and> is_child s (nc_node lst) (nc_node x))
        \<or> level x \<le> level lst)"

text \<open>The allocator hands out addresses above every allocated node.\<close>

definition alloc_ok :: "Bvh \<Rightarrow> bool" where
  "alloc_ok s \<longleftrightarrow> (\<forall>a. nodes s a \<noteq> None \<longrightarrow> a < free_addr s)"

text \<open>The shape of a tree in the heap: a leaf with its address, box and object list, or an
  internal node with its address, box and two subtrees. \<open>olist os p hs\<close>: following \<open>next\<close>
  from \<open>p\<close> visits exactly \<open>hs\<close> and then ends at \<^verbatim>\<open>nullptr\<close>.\<close>

datatype tree = Leaf nat Aabb "nat list" | Inner nat Aabb tree tree

fun olist :: "(nat \<Rightarrow> Object) \<Rightarrow> nat option \<Rightarrow> nat list \<Rightarrow> bool" where
  "olist os p [] = (p = None)"
| "olist os p (h # hs) = (p = Some h \<and> olist os (next (os h)) hs)"

fun tree_at :: "(nat \<Rightarrow> Node option) \<Rightarrow> (nat \<Rightarrow> Object) \<Rightarrow> nat \<Rightarrow> tree \<Rightarrow> bool" where
  "tree_at ns os a (Leaf a' b hs) =
     (a = a' \<and> (case ns a of None \<Rightarrow> False
        | Some n \<Rightarrow> bv n = b \<and> children0 n = None \<and> children1 n = None
            \<and> olist os (firstObject n) hs))"
| "tree_at ns os a (Inner a' b l r) =
     (a = a' \<and> (case ns a of None \<Rightarrow> False
        | Some n \<Rightarrow> bv n = b
            \<and> (case children0 n of None \<Rightarrow> False
               | Some c0 \<Rightarrow> (case children1 n of None \<Rightarrow> False
                   | Some c1 \<Rightarrow> tree_at ns os c0 l \<and> tree_at ns os c1 r))))"

definition is_tree :: "Bvh \<Rightarrow> nat \<Rightarrow> tree \<Rightarrow> bool" where
  "is_tree s a t = tree_at (nodes s) (objects s) a t"

fun tree_addr :: "tree \<Rightarrow> nat" where
  "tree_addr (Leaf a b hs) = a"
| "tree_addr (Inner a b l r) = a"

fun tree_bv :: "tree \<Rightarrow> Aabb" where
  "tree_bv (Leaf a b hs) = b"
| "tree_bv (Inner a b l r) = b"

fun tree_addrs :: "tree \<Rightarrow> nat list" where
  "tree_addrs (Leaf a b hs) = [a]"
| "tree_addrs (Inner a b l r) = a # tree_addrs l @ tree_addrs r"

fun tree_objects :: "tree \<Rightarrow> nat list" where
  "tree_objects (Leaf a b hs) = hs"
| "tree_objects (Inner a b l r) = tree_objects l @ tree_objects r"

fun height :: "tree \<Rightarrow> nat" where
  "height (Leaf a b hs) = 0"
| "height (Inner a b l r) = Suc (max (height l) (height r))"

fun tree_size :: "tree \<Rightarrow> nat" where
  "tree_size (Leaf a b hs) = 1"
| "tree_size (Inner a b l r) = Suc (tree_size l + tree_size r)"

text \<open>Fuel that suffices for one traversal of a tree: a unit for each node and one for each
  object of a leaf.\<close>

definition tree_weight :: "tree \<Rightarrow> nat" where
  "tree_weight t = tree_size t + length (tree_objects t)"



text \<open>The containment invariant: the box of an internal node encloses the boxes of both
  children, the box of a leaf encloses the box of each of its objects.\<close>

fun contained :: "(nat \<Rightarrow> Object) \<Rightarrow> tree \<Rightarrow> bool" where
  "contained os (Leaf a b hs) = list_all (\<lambda>h. encloses b (obj_bv (os h))) hs"
| "contained os (Inner a b l r) =
     (encloses b (tree_bv l) \<and> encloses b (tree_bv r) \<and> contained os l \<and> contained os r)"

text \<open>The tree of a \<^verbatim>\<open>Bvh\<close>: none when \<^verbatim>\<open>mRoot\<close> is null, otherwise the shape found at the
  root, no node of which occurs twice.\<close>

definition bvh_tree :: "Bvh \<Rightarrow> tree option \<Rightarrow> bool" where
  "bvh_tree s t = (case t of
       None \<Rightarrow> mRoot s = None
     | Some tr \<Rightarrow> mRoot s = Some (tree_addr tr) \<and> is_tree s (tree_addr tr) tr
         \<and> distinct (tree_addrs tr))"

definition objects_of :: "tree option \<Rightarrow> nat list" where
  "objects_of t = (case t of None \<Rightarrow> [] | Some tr \<Rightarrow> tree_objects tr)"

text \<open>A box is proper when its minimum corner is below its maximum corner, so that it has
  a point.\<close>

definition proper :: "Aabb \<Rightarrow> bool" where
  "proper b \<longleftrightarrow> vle (min_c b) (max_c b)"

text \<open>What the queries need of the geometric tests, which are not among the sources: a
  proper box enclosed in one that lies outside the frustum lies outside, and a proper box
  enclosed in one that lies inside does not lie outside.\<close>

definition respects_enclosure :: "(Aabb \<Rightarrow> SideResult) \<Rightarrow> bool" where
  "respects_enclosure classify \<longleftrightarrow>
     (\<forall>a b. encloses a b \<and> proper b \<longrightarrow>
        (classify a = eOUTSIDE \<longrightarrow> classify b = eOUTSIDE)
        \<and> (classify a = eINSIDE \<longrightarrow> classify b \<noteq> eOUTSIDE))"

text \<open>A heap in which nodes were only ever allocated: the nodes are the addresses below the
  allocator, and a child was allocated after its parent.\<close>

definition ordered :: "Bvh \<Rightarrow> bool" where
  "ordered s \<longleftrightarrow> (\<forall>a. (nodes s a \<noteq> None) = (a < free_addr s))
     \<and> (\<forall>a n c. nodes s a = Some n \<longrightarrow> children0 n = Some c \<or> children1 n = Some c
           \<longrightarrow> a < c \<and> c < free_addr s)"

text \<open>Halving a range of \<open>n\<close> objects until at most \<open>m\<close> are left: the height and the number
  of nodes of the tree of the ranges.\<close>

function split_height :: "nat \<Rightarrow> nat \<Rightarrow> nat" where
  "split_height m n = (if n \<le> m \<or> n < 2 then 0
     else Suc (max (split_height m (n div 2)) (split_height m (n - n div 2))))"
  by pat_completeness auto
termination
  by (relation "measure snd") auto

function split_size :: "nat \<Rightarrow> nat \<Rightarrow> nat" where
  "split_size m n = (if n \<le> m \<or> n < 2 then 1
     else Suc (split_size m (n div 2) + split_size m (n - n div 2)))"
  by pat_completeness auto
termination
  by (relation "measure snd") auto

declare split_height.simps [simp del] split_size.simps [simp del]

text \<open>What the ray query needs of \<^verbatim>\<open>Ray::intersect\<close>, which is not among the sources: a ray
  that enters a proper box enters every box that encloses it, and not later.\<close>

definition respects_entry :: "(Aabb \<Rightarrow> real) \<Rightarrow> bool" where
  "respects_entry intersect \<longleftrightarrow>
     (\<forall>a b. encloses a b \<and> proper b \<and> 0 \<le> intersect b \<longrightarrow>
        0 \<le> intersect a \<and> intersect a \<le> intersect b)"

text \<open>The objects of a list whose box the ray enters.\<close>

definition hits_of :: "(Aabb \<Rightarrow> real) \<Rightarrow> (nat \<Rightarrow> Object) \<Rightarrow> nat list \<Rightarrow> nat set" where
  "hits_of intersect os hs = {h \<in> set hs. 0 \<le> intersect (obj_bv (os h))}"

text \<open>What a visit of the ray query does to the variables of \<^verbatim>\<open>QueryDebug\<close>, for the set \<open>H\<close>
  of the objects under the visited node that the ray hits: the shortest time does not grow,
  it is at most the time of every hit of \<open>H\<close>, it and \<^verbatim>\<open>closestIntersect\<close> are as before or
  belong to a hit of \<open>H\<close>, the returned time is negative or not below the shortest time,
  and when all hits are wanted the ids of \<open>H\<close> have been appended.\<close>

definition ray_post :: "(Aabb \<Rightarrow> real) \<Rightarrow> (nat \<Rightarrow> Object) \<Rightarrow> bool \<Rightarrow> nat set \<Rightarrow> ray_vars \<Rightarrow> real
    \<Rightarrow> ray_vars \<Rightarrow> bool" where
  "ray_post intersect os closest_only H v r v' \<longleftrightarrow>
     bvhShortestTime v' \<le> bvhShortestTime v
     \<and> (bvhShortestTime v' = bvhShortestTime v \<and> closestIntersect v' = closestIntersect v
        \<or> (\<exists>h \<in> H. intersect (obj_bv (os h)) = bvhShortestTime v'
              \<and> closestIntersect v' = sint (obj_id (os h))))
     \<and> (\<forall>h \<in> H. bvhShortestTime v' \<le> intersect (obj_bv (os h)))
     \<and> (r < 0 \<or> bvhShortestTime v' \<le> r)
     \<and> (if closest_only then allIntersectedObjects v' = allIntersectedObjects v
        else \<exists>xs. set xs = H
          \<and> allIntersectedObjects v' = allIntersectedObjects v @ map (\<lambda>h. obj_id (os h)) xs)"

text \<open>The subtrees of a tree, the tree itself first.\<close>

fun subtrees :: "tree \<Rightarrow> tree list" where
  "subtrees (Leaf a b hs) = [Leaf a b hs]"
| "subtrees (Inner a b l r) = Inner a b l r # subtrees l @ subtrees r"

text \<open>A tree in the heap whose leaves have the right list end as well: \<^verbatim>\<open>lastObject\<close> is
  the last object of the list, and null when the list is empty. \<^verbatim>\<open>Node::AddObject\<close>
  appends behind \<^verbatim>\<open>lastObject\<close>, so this is what an insertion relies on.\<close>

fun heap_tree :: "(nat \<Rightarrow> Node option) \<Rightarrow> (nat \<Rightarrow> Object) \<Rightarrow> nat \<Rightarrow> tree \<Rightarrow> bool" where
  "heap_tree ns os a (Leaf a' b hs) =
     (a = a' \<and> (case ns a of None \<Rightarrow> False
        | Some n \<Rightarrow> bv n = b \<and> children0 n = None \<and> children1 n = None
            \<and> olist os (firstObject n) hs
            \<and> lastObject n = (if hs = [] then None else Some (last hs))))"
| "heap_tree ns os a (Inner a' b l r) =
     (a = a' \<and> (case ns a of None \<Rightarrow> False
        | Some n \<Rightarrow> bv n = b
            \<and> (case children0 n of None \<Rightarrow> False
               | Some c0 \<Rightarrow> (case children1 n of None \<Rightarrow> False
                   | Some c1 \<Rightarrow> heap_tree ns os c0 l \<and> heap_tree ns os c1 r))))"

text \<open>\<open>retag ns t\<close> is \<open>t\<close> with the box of every node read from the node store \<open>ns\<close>;
  \<open>subst_tree a new t\<close> is \<open>t\<close> with \<open>new\<close> in the place of the subtree at address \<open>a\<close>.\<close>

fun retag :: "(nat \<Rightarrow> Node option) \<Rightarrow> tree \<Rightarrow> tree" where
  "retag ns (Leaf a b hs) = Leaf a (case ns a of None \<Rightarrow> b | Some n \<Rightarrow> bv n) hs"
| "retag ns (Inner a b l r) =
     Inner a (case ns a of None \<Rightarrow> b | Some n \<Rightarrow> bv n) (retag ns l) (retag ns r)"


text \<open>The state that single-object insertions of distinct objects keep: the root points at
  a tree in the heap with the right list ends, no node and no object occurs twice in it, its
  nodes lie below the next free address, and every leaf holds an object.\<close>

fun leaves_full :: "tree \<Rightarrow> bool" where
  "leaves_full (Leaf a b hs) = (hs \<noteq> [])"
| "leaves_full (Inner a b l r) = (leaves_full l \<and> leaves_full r)"

definition insert_inv :: "Bvh \<Rightarrow> tree \<Rightarrow> bool" where
  "insert_inv s t \<longleftrightarrow> mRoot s = Some (tree_addr t)
     \<and> heap_tree (nodes s) (objects s) (tree_addr t) t
     \<and> distinct (tree_addrs t) \<and> distinct (tree_objects t)
     \<and> (\<forall>a \<in> set (tree_addrs t). a < free_addr s)
     \<and> leaves_full t"

text \<open>A cost record of the search of \<^verbatim>\<open>Insert\<close> stands for the subtree \<open>t\<close> of \<open>T\<close>.\<close>

definition in_tree :: "Bvh \<Rightarrow> tree \<Rightarrow> NodeCosts \<Rightarrow> tree \<Rightarrow> bool" where
  "in_tree s T c t \<longleftrightarrow> nc_node c = tree_addr t \<and> tree_at (nodes s) (objects s) (tree_addr t) t
     \<and> t \<in> set (subtrees T)"

section \<open>Concrete scenes\<close>

text \<open>Objects with the unit box as bounding volume, numbered by their handle, that belong
  to no node yet; objects in a row along the first axis; objects that are points.\<close>

definition unit_box :: Aabb where
  "unit_box = \<lparr>min_c = (0, 0, 0), max_c = (1, 1, 1)\<rparr>"

definition unit_objects :: "nat \<Rightarrow> Object" where
  "unit_objects h =
     \<lparr>obj_id = of_nat h, obj_bv = unit_box, next = None, prev = None, node = None\<rparr>"

definition row_box :: "nat \<Rightarrow> Aabb" where
  "row_box h = \<lparr>min_c = (real h, 0, 0), max_c = (real h + 1, 1, 1)\<rparr>"

definition row_objects :: "nat \<Rightarrow> Object" where
  "row_objects h =
     \<lparr>obj_id = of_nat h, obj_bv = row_box h, next = None, prev = None, node = None\<rparr>"

definition point_box :: Aabb where
  "point_box = \<lparr>min_c = (0, 0, 0), max_c = (0, 0, 0)\<rparr>"

definition point_objects :: "nat \<Rightarrow> Object" where
  "point_objects h =
     \<lparr>obj_id = of_nat h, obj_bv = point_box, next = None, prev = None, node = None\<rparr>"

text \<open>Unit boxes whose ids start at \<open>2^31\<close>.\<close>

definition high_id_objects :: "nat \<Rightarrow> Object" where
  "high_id_objects h =
     \<lparr>obj_id = 2147483648 + of_nat h, obj_bv = unit_box, next = None, prev = None,
      node = None\<rparr>"

definition empty_leaf :: "Aabb \<Rightarrow> Node" where
  "empty_leaf b =
     \<lparr>bv = b, children0 = None, children1 = None, firstObject = None, lastObject = None\<rparr>"

text \<open>The configurations of the test harness: \<^verbatim>\<open>cTopDownConfig\<close>, and the one of the
  manual insertion tests.\<close>

definition cTopDownConfig :: BvhBuildConfig where
  "cTopDownConfig = \<lparr>maxDepth = 4294967295, minObjects = 20, minVolume = 250\<rparr>"

definition config1 :: BvhBuildConfig where
  "config1 = \<lparr>maxDepth = 100, minObjects = 1, minVolume = 0\<rparr>"

text \<open>Two nodes; node 0 holds the objects 0, 1, 2 in this order, node 1 is empty.\<close>

definition three_list :: Bvh where
  "three_list =
     \<lparr>nodes = [0 \<mapsto> (empty_leaf unit_box)\<lparr>firstObject := Some 0, lastObject := Some 2\<rparr>,
               1 \<mapsto> empty_leaf unit_box],
      objects = unit_objects
        (0 := (unit_objects 0)\<lparr>next := Some 1, node := Some 0\<rparr>,
         1 := (unit_objects 1)\<lparr>next := Some 2, prev := Some 0, node := Some 0\<rparr>,
         2 := (unit_objects 2)\<lparr>prev := Some 1, node := Some 0\<rparr>),
      free_addr = 2, mRoot = None, mObjectCount = 0\<rparr>"

text \<open>The tree after object 0 has been inserted, with the counter at \<open>c\<close>.\<close>

definition dup_state :: "32 word \<Rightarrow> Bvh" where
  "dup_state c =
     \<lparr>nodes = [0 \<mapsto> (empty_leaf unit_box)\<lparr>firstObject := Some 0, lastObject := Some 0\<rparr>],
      objects = unit_objects(0 := (unit_objects 0)\<lparr>node := Some 0\<rparr>),
      free_addr = 1, mRoot = Some 0, mObjectCount = c\<rparr>"

text \<open>The tree that \<^verbatim>\<open>BuildTopDown\<close> makes of the first two objects of the row when a leaf
  may hold one object.\<close>

definition pair_tree :: Bvh where
  "pair_tree =
     \<lparr>nodes = [0 \<mapsto> \<lparr>bv = \<lparr>min_c = (0, 0, 0), max_c = (2, 1, 1)\<rparr>, children0 = Some 1,
                       children1 = Some 2, firstObject = None, lastObject = None\<rparr>,
               1 \<mapsto> \<lparr>bv = row_box 0, children0 = None, children1 = None,
                       firstObject = Some 0, lastObject = Some 0\<rparr>,
               2 \<mapsto> \<lparr>bv = row_box 1, children0 = None, children1 = None,
                       firstObject = Some 1, lastObject = Some 1\<rparr>],
      objects = row_objects(0 := (row_objects 0)\<lparr>node := Some 1\<rparr>,
                            1 := (row_objects 1)\<lparr>node := Some 2\<rparr>),
      free_addr = 3, mRoot = Some 0, mObjectCount = 2\<rparr>"

definition pair_shape :: tree where
  "pair_shape = Inner 0 \<lparr>min_c = (0, 0, 0), max_c = (2, 1, 1)\<rparr>
     (Leaf 1 (row_box 0) [0]) (Leaf 2 (row_box 1) [1])"

text \<open>Samples of the geometric tests. \<open>left_of c\<close> is a frustum of one plane, the half
  space of the points whose first coordinate is at most \<open>c\<close>. \<open>x_ray\<close> is the ray from
  \<open>(-1, 1/2, 1/2)\<close> along the first axis, by the slab method: the entry time, 0 when the
  start is inside, and \<open>-1\<close> on a miss.\<close>

definition left_of :: "real \<Rightarrow> Aabb \<Rightarrow> SideResult" where
  "left_of c b = (if fst (max_c b) \<le> c then eINSIDE
     else if fst (min_c b) > c then eOUTSIDE else eINTERSECTING)"

definition x_ray :: "Aabb \<Rightarrow> real" where
  "x_ray b = (case (min_c b, max_c b) of ((x0, y0, z0), (x1, y1, z1)) \<Rightarrow>
     (if y0 \<le> 1 / 2 \<and> 1 / 2 \<le> y1 \<and> z0 \<le> 1 / 2 \<and> 1 / 2 \<le> z1 \<and> - 1 \<le> x1 \<and> x0 \<le> x1
      then max 0 (x0 + 1) else - 1))"




text \<open>An object that its owner moves between insertions. Object 0 of the row is inserted
  (\<open>lone_leaf\<close>), moved to the place of object 2 and inserted again, which makes a new root
  and a second leaf for it (\<open>moved_out\<close>), then moved back and inserted once more
  (\<open>moved_back\<close>): the first leaf still had the object as its \<^verbatim>\<open>lastObject\<close>, so
  \<^verbatim>\<open>AddObject\<close> has linked the object to itself.\<close>

definition lone_leaf :: Bvh where
  "lone_leaf =
     \<lparr>nodes = [0 \<mapsto> (empty_leaf (row_box 0))\<lparr>firstObject := Some 0, lastObject := Some 0\<rparr>],
      objects = row_objects(0 := (row_objects 0)\<lparr>node := Some 0\<rparr>),
      free_addr = 1, mRoot = Some 0, mObjectCount = 1\<rparr>"

definition moved_out :: Bvh where
  "moved_out =
     \<lparr>nodes = [0 \<mapsto> (empty_leaf (row_box 0))\<lparr>firstObject := Some 0, lastObject := Some 0\<rparr>,
               1 \<mapsto> \<lparr>bv = \<lparr>min_c = (0, 0, 0), max_c = (3, 1, 1)\<rparr>, children0 = Some 0,
                       children1 = Some 2, firstObject = None, lastObject = None\<rparr>,
               2 \<mapsto> (empty_leaf (row_box 2))\<lparr>firstObject := Some 0, lastObject := Some 0\<rparr>],
      objects = row_objects(0 := (row_objects 0)\<lparr>obj_bv := row_box 2, node := Some 2\<rparr>),
      free_addr = 3, mRoot = Some 1, mObjectCount = 2\<rparr>"

definition moved_back :: Bvh where
  "moved_back =
     \<lparr>nodes = [0 \<mapsto> (empty_leaf (row_box 0))\<lparr>firstObject := Some 0, lastObject := Some 0\<rparr>,
               1 \<mapsto> \<lparr>bv = \<lparr>min_c = (0, 0, 0), max_c = (3, 1, 1)\<rparr>, children0 = Some 0,
                       children1 = Some 2, firstObject = None, lastObject = None\<rparr>,
               2 \<mapsto> (empty_leaf (row_box 2))\<lparr>firstObject := Some 0, lastObject := Some 0\<rparr>],
      objects = row_objects(0 := (row_objects 0)\<lparr>next := Some 0, prev := Some 0, node := Some 0\<rparr>),
      free_addr = 3, mRoot = Some 1, mObjectCount = 3\<rparr>"

section \<open>The object list of a node: \<^verbatim>\<open>AddObject\<close>\<close>

lemmas heap_defs = new_Node_def Bvh_init_def AddObject_def detach_def append_object_def
  upd_Node_def set_next_def set_prev_def set_node_def unlink_next_def unlink_prev_def Let_def

lemmas scene_defs = unit_objects_def empty_leaf_def
lemmas pair_defs = pair_tree_def row_objects_def row_box_def config1_def
lemmas cost_defs = mk_NodeCosts_def Aabb_merge_def volume_def IsLeaf_def compareCheapest_def
  cEpsilon3_def Let_def
lemmas word_cmp = word_le_nat_alt word_less_nat_alt

lemma set_fields [simp]:
  "nodes (set_next h v s) = nodes s" "free_addr (set_next h v s) = free_addr s"
  "mRoot (set_next h v s) = mRoot s" "mObjectCount (set_next h v s) = mObjectCount s"
  "nodes (set_prev h v s) = nodes s" "free_addr (set_prev h v s) = free_addr s"
  "mRoot (set_prev h v s) = mRoot s" "mObjectCount (set_prev h v s) = mObjectCount s"
  "nodes (set_node h v s) = nodes s" "free_addr (set_node h v s) = free_addr s"
  "mRoot (set_node h v s) = mRoot s" "mObjectCount (set_node h v s) = mObjectCount s"
  by (simp_all add: set_next_def set_prev_def set_node_def)

lemma unlink_fields [simp]:
  "nodes (unlink_prev h s) = nodes s" "free_addr (unlink_prev h s) = free_addr s"
  "mRoot (unlink_prev h s) = mRoot s" "mObjectCount (unlink_prev h s) = mObjectCount s"
  "nodes (unlink_next h s) = nodes s" "free_addr (unlink_next h s) = free_addr s"
  "mRoot (unlink_next h s) = mRoot s" "mObjectCount (unlink_next h s) = mObjectCount s"
  by (simp_all add: unlink_prev_def unlink_next_def split: option.splits)

lemma detach_fields [simp]:
  "nodes (detach h s) = nodes s" "free_addr (detach h s) = free_addr s"
  "mRoot (detach h s) = mRoot s" "mObjectCount (detach h s) = mObjectCount s"
  by (simp_all add: detach_def)

lemma upd_Node_Inr:
  "upd_Node a f s = Inr s' \<Longrightarrow>
     (\<exists>n. nodes s a = Some n \<and> nodes s' = (nodes s)(a \<mapsto> f n)) \<and> objects s' = objects s
     \<and> free_addr s' = free_addr s \<and> mRoot s' = mRoot s \<and> mObjectCount s' = mObjectCount s"
  by (auto simp: upd_Node_def split: option.splits)


lemma append_object_Inr:
  assumes "append_object this object s = Inr s'"
  shows "(\<exists>nd. nodes s this = Some nd
         \<and> nodes s' = (nodes s)(this \<mapsto> nd\<lparr>firstObject :=
               (if firstObject nd = None then Some object else firstObject nd),
             lastObject := Some object\<rparr>))
       \<and> free_addr s' = free_addr s \<and> mRoot s' = mRoot s \<and> mObjectCount s' = mObjectCount s"
proof -
  from assms obtain nd where nd: "nodes s this = Some nd"
    by (auto simp: append_object_def split: option.splits)
  with assms show ?thesis
    by (cases "lastObject nd")
      (auto simp: append_object_def Let_def upd_Node_def fun_eq_iff)
qed

lemma AddObject_Inr:
  assumes "AddObject this object s = Inr s'"
  shows "node (objects s object) = Some this \<and> s' = s
     \<or> node (objects s object) \<noteq> Some this \<and> (\<exists>nd. nodes s this = Some nd
         \<and> nodes s' = (nodes s)(this \<mapsto> nd\<lparr>firstObject :=
               (if firstObject nd = None then Some object else firstObject nd),
             lastObject := Some object\<rparr>))
       \<and> free_addr s' = free_addr s \<and> mRoot s' = mRoot s \<and> mObjectCount s' = mObjectCount s"
proof (cases "node (objects s object) = Some this")
  case True
  with assms show ?thesis by (simp add: AddObject_def)
next
  case False
  with assms have "append_object this object (detach object s) = Inr s'"
    by (simp add: AddObject_def)
  from append_object_Inr [OF this] False show ?thesis by simp
qed

lemma AddObject_frame:
  "AddObject this object s = Inr s' \<Longrightarrow>
     (\<forall>a. a \<noteq> this \<longrightarrow> nodes s' a = nodes s a) \<and> free_addr s' = free_addr s \<and> mRoot s' = mRoot s
     \<and> map_option bv (nodes s' this) = map_option bv (nodes s this)
     \<and> map_option children0 (nodes s' this) = map_option children0 (nodes s this)
     \<and> map_option children1 (nodes s' this) = map_option children1 (nodes s this)"
  by (drule AddObject_Inr) auto

lemma AddObject_empty_node:
  "AddObject this object s = Inr s' \<Longrightarrow> nodes s this = Some n \<Longrightarrow> firstObject n = None \<Longrightarrow>
   lastObject n = None \<Longrightarrow> node (objects s object) \<noteq> Some this \<Longrightarrow>
     nodes s' this = Some (n\<lparr>firstObject := Some object, lastObject := Some object\<rparr>)"
  by (drule AddObject_Inr) auto


lemma AddObject_fresh:
  assumes "nodes s w = Some n" "node (objects s h) = None" "lastObject n \<noteq> Some h"
  shows "\<exists>s'. AddObject w h s = Inr s'
     \<and> nodes s' = (nodes s)(w \<mapsto> n\<lparr>firstObject :=
           (if firstObject n = None then Some h else firstObject n), lastObject := Some h\<rparr>)
     \<and> free_addr s' = free_addr s \<and> mRoot s' = mRoot s \<and> mObjectCount s' = mObjectCount s
     \<and> next (objects s' h) = None
     \<and> (\<forall>l. lastObject n = Some l \<longrightarrow> l \<noteq> h \<longrightarrow> next (objects s' l) = Some h
           \<and> node (objects s' l) = node (objects s l)
           \<and> obj_bv (objects s' l) = obj_bv (objects s l))
     \<and> (\<forall>x. x \<noteq> h \<longrightarrow> lastObject n \<noteq> Some x \<longrightarrow> objects s' x = objects s x)"
  using assms by (cases "lastObject n") (auto simp: heap_defs fun_eq_iff)

text \<open>The scene \<open>three_list\<close> is what three calls of \<^verbatim>\<open>AddObject\<close> on a new node build.\<close>

lemma three_list_built:
  "(case AddObject 0 0 (snd (new_Node unit_box (snd (new_Node unit_box (Bvh_init unit_objects))))) of
      Inl e \<Rightarrow> Inl e
    | Inr s1 \<Rightarrow> (case AddObject 0 1 s1 of Inl e \<Rightarrow> Inl e | Inr s2 \<Rightarrow> AddObject 0 2 s2))
   = Inr three_list"
  by (simp add: heap_defs three_list_def scene_defs fun_upd_twist)

lemma AddObject_noop:
  "node (objects s object) = Some this \<Longrightarrow> AddObject this object s = Inr s"
  by (simp add: AddObject_def)

lemma AddObject_node:
  "AddObject this object s = Inr s' \<Longrightarrow> node (objects s' object) = Some this"
  by (cases "lastObject (the (nodes (detach object s) this))")
    (auto simp: AddObject_def append_object_def Let_def upd_Node_def set_next_def set_node_def
      split: if_splits option.splits)

text \<open>
  C7. \<^verbatim>\<open>Node::AddObject\<close> does not keep the lists doubly linked. Node 0 holds the
  objects 0, 1, 2; node 1 takes object 1. The source clears \<open>prev\<close> of the moved object
  before it copies it into the successor, so object 2 is left with no predecessor
  although object 0 now points at it: \<open>P.next.prev = P\<close> fails for \<open>P = 0\<close>.
\<close>

theorem AddObject_middle_breaks_prev:
  "case AddObject 1 1 three_list of
     Inl e \<Rightarrow> False
   | Inr s \<Rightarrow> node (objects s 0) = Some 0 \<and> node (objects s 2) = Some 0
       \<and> next (objects s 0) = Some 2 \<and> prev (objects s 2) = None"
  by (simp add: heap_defs three_list_def scene_defs)

text \<open>The same call leaves the ends of the former node alone: when node 1 takes object 0,
  node 0 still starts at object 0, which now belongs to node 1.\<close>

lemma AddObject_first_keeps_stale_head:
  "case AddObject 1 0 three_list of
     Inl e \<Rightarrow> False
   | Inr s \<Rightarrow> node (objects s 0) = Some 1
       \<and> map_option firstObject (nodes s 0) = Some (Some 0)"
  by (simp add: heap_defs three_list_def scene_defs)

section \<open>The object counter\<close>













section \<open>The search of \<^verbatim>\<open>Insert\<close> walks down one path\<close>

lemma place_choose:
  "place fuel config object p i (Some leaf) s =
     (case placement_of fuel config p i (Some leaf) s of
        Inl e \<Rightarrow> Inl e
      | Inr Append_leaf \<Rightarrow> append_to_leaf p leaf object s
      | Inr (New_parent k) \<Rightarrow> create_parent p k object s)"
  by (auto simp: place_def placement_of_def split: sum.splits)

lemma compareCheapest_level: "compareCheapest a b \<Longrightarrow> level a \<le> level b"
  by (auto simp: compareCheapest_def split: if_splits)

lemma not_compareCheapest_level: "\<not> compareCheapest a b \<Longrightarrow> level b \<le> level a"
  by (auto simp: compareCheapest_def split: if_splits)

lemma pq_extract_max:
  "pq_extract b ys = (t, r) \<Longrightarrow>
     t \<in> set (b # ys) \<and> set r \<subseteq> set (b # ys) \<and> (\<forall>x \<in> set (b # ys). level x \<le> level t)"
proof (induction ys arbitrary: b t r)
  case Nil
  then show ?case by simp
next
  case (Cons y ys)
  show ?case
  proof (cases "compareCheapest b y")
    case True
    then obtain r' where e: "pq_extract y ys = (t, r')" and r: "r = b # r'"
      using Cons.prems by (auto split: prod.splits)
    from Cons.IH [OF e] have ih: "t \<in> set (y # ys)" "set r' \<subseteq> set (y # ys)"
      "\<forall>x \<in> set (y # ys). level x \<le> level t" by auto
    from True have "level b \<le> level y" by (rule compareCheapest_level)
    with ih(3) have "level b \<le> level t" by force
    with ih r show ?thesis by auto
  next
    case False
    then obtain r' where e: "pq_extract b ys = (t, r')" and r: "r = y # r'"
      using Cons.prems by (auto split: prod.splits)
    from Cons.IH [OF e] have ih: "t \<in> set (b # ys)" "set r' \<subseteq> set (b # ys)"
      "\<forall>x \<in> set (b # ys). level x \<le> level t" by auto
    from False have "level y \<le> level b" by (rule not_compareCheapest_level)
    with ih(3) have "level y \<le> level t" by force
    with ih r show ?thesis by auto
  qed
qed

lemma mk_NodeCosts_valid:
  "mk_NodeCosts s nd object cost lv = Inr c \<Longrightarrow>
     nd = Some (nc_node c) \<and> level c = lv \<and> valid_nc s object c"
  by (auto simp: mk_NodeCosts_def valid_nc_def Let_def split: option.splits)

lemma child_chain_snoc:
  "child_chain s (xs @ [a]) \<Longrightarrow> is_child s a b \<Longrightarrow> child_chain s (xs @ [a, b])"
  by (induction s xs rule: child_chain.induct) auto

lemma child_chain_snoc':
  "xs \<noteq> [] \<Longrightarrow> child_chain s xs \<Longrightarrow> is_child s (last xs) b \<Longrightarrow> child_chain s (xs @ [b])"
proof -
  assume a: "xs \<noteq> []" "child_chain s xs" "is_child s (last xs) b"
  then have "child_chain s (butlast xs @ [last xs])" by simp
  from this a(3) have "child_chain s (butlast xs @ [last xs, b])" by (rule child_chain_snoc)
  moreover have "butlast xs @ [last xs, b] = xs @ [b]" using a(1) by simp
  ultimately show ?thesis by simp
qed

lemma search_path:
  assumes "search fuel s object queue path sci index = Inr (path', sci', leaf')"
    and "index = length path"
    and "sci < length path \<or> path = [] \<and> sci = 0"
    and "\<forall>c \<in> set path \<union> set queue. valid_nc s object c"
    and "child_chain s (map nc_node path)"
    and "queue \<noteq> []"
    and "path = [] \<longrightarrow> length queue = 1 \<and> level (hd queue) = 0"
    and "path \<noteq> [] \<longrightarrow> queue_ok s (last path) queue \<and> level (last path) = of_nat (length path - 1)
           \<and> (\<exists>x \<in> set queue. level x = level (last path) + 1)"
    and "length path + fuel < 2 ^ 32"
  shows "path' \<noteq> [] \<and> take (length path) path' = path \<and> (path = [] \<longrightarrow> hd path' = hd queue)
     \<and> child_chain s (map nc_node path')
     \<and> sci' < length path' \<and> leaf' = Some (last path')
     \<and> (\<forall>c \<in> set path'. valid_nc s object c)
     \<and> (case nodes s (nc_node (last path')) of None \<Rightarrow> False | Some n \<Rightarrow> IsLeaf n)"
  using assms
proof (induction fuel s object queue path sci index arbitrary: path' sci' leaf'
    rule: search.induct)
  case (1 fuel s object cheapestPath smallestCostIndex index)
  then show ?case by simp
next
  case (2 s object q qs cheapestPath smallestCostIndex index)
  then show ?case by simp
next
  case (3 fuel s object q qs cheapestPath smallestCostIndex index)
  obtain t rest where ex: "pq_extract q qs = (t, rest)"
    by (cases "pq_extract q qs")
  note mx = pq_extract_max [OF ex]
  define path where "path = cheapestPath @ [t]"
  define sci where "sci = (if rootToNewParentCost t
       \<le> rootToNewParentCost (path ! smallestCostIndex) + cEpsilon3
     then index else smallestCostIndex)"
  have sci_lt: "sci < length path"
    using "3.prems"(2,3) by (auto simp: sci_def path_def)
  have t_valid: "valid_nc s object t"
    using mx "3.prems"(4) by auto
  then obtain n where n: "nodes s (nc_node t) = Some n"
    by (auto simp: valid_nc_def split: option.splits)
  have first: "cheapestPath = [] \<longrightarrow> t = q \<and> level t = 0"
  proof
    assume "cheapestPath = []"
    with "3.prems"(7) have "qs = []" "level q = 0" by simp_all
    with ex show "t = q \<and> level t = 0" by simp
  qed
  have later: "cheapestPath \<noteq> [] \<longrightarrow> is_child s (nc_node (last cheapestPath)) (nc_node t)
      \<and> level t = level (last cheapestPath) + 1
      \<and> level (last cheapestPath) = of_nat (length cheapestPath - 1)"
  proof
    assume False: "cheapestPath \<noteq> []"
    with "3.prems"(8) have qok: "queue_ok s (last cheapestPath) (q # qs)"
      and lv: "level (last cheapestPath) = of_nat (length cheapestPath - 1)"
      and "\<exists>x \<in> set (q # qs). level x = level (last cheapestPath) + 1"
      by blast+
    then obtain x where x: "x \<in> set (q # qs)" "level x = level (last cheapestPath) + 1"
      by blast
    define k where "k = length cheapestPath - 1"
    from False "3.prems"(9) have k: "k + 1 < 2 ^ 32" by (simp add: k_def)
    have "(of_nat k :: 32 word) < of_nat (Suc k)"
      using k by (simp add: word_of_nat_less_iff take_bit_nat_eq_self del: of_nat_Suc)
    then have "(of_nat k :: 32 word) < of_nat k + 1"
      by (simp add: ac_simps)
    then have nowrap: "level (last cheapestPath) < level (last cheapestPath) + 1"
      by (simp add: lv k_def)
    from mx x have "level x \<le> level t" by auto
    with x(2) nowrap have "\<not> level t \<le> level (last cheapestPath)" by auto
    with qok mx have "is_child s (nc_node (last cheapestPath)) (nc_node t)
        \<and> level t = level (last cheapestPath) + 1"
      by (auto simp: queue_ok_def)
    with lv show "is_child s (nc_node (last cheapestPath)) (nc_node t)
      \<and> level t = level (last cheapestPath) + 1
      \<and> level (last cheapestPath) = of_nat (length cheapestPath - 1)" by simp
  qed
  have chain: "child_chain s (map nc_node path)"
  proof (cases "cheapestPath = []")
    case True
    then show ?thesis by (simp add: path_def)
  next
    case False
    with later "3.prems"(5) show ?thesis
      unfolding path_def using child_chain_snoc' [of "map nc_node cheapestPath" s "nc_node t"]
      by (simp add: last_map)
  qed
  have lvt: "level t = of_nat (length path - 1)"
  proof (cases "cheapestPath = []")
    case True
    with first have "level t = 0" by blast
    with True show ?thesis by (simp add: path_def)
  next
    case False
    with later have "level t = of_nat (length cheapestPath - 1) + 1" by simp
    also have "\<dots> = of_nat (Suc (length cheapestPath - 1))" by simp
    also have "Suc (length cheapestPath - 1) = length cheapestPath" using False by simp
    finally show ?thesis by (simp add: path_def)
  qed
  have valid_path: "\<forall>c \<in> set path. valid_nc s object c"
    using "3.prems"(4) t_valid by (auto simp: path_def)
  have hd_path: "cheapestPath = [] \<longrightarrow> hd path = hd (q # qs)"
    using first by (simp add: path_def)
  have take_path: "take (length cheapestPath) path = cheapestPath"
    by (simp add: path_def)
  show ?case
  proof (cases "IsLeaf n")
    case True
    with "3.prems"(1) ex n have "path' = path" "sci' = sci" "leaf' = Some t"
      by (auto simp: path_def sci_def Let_def)
    with True n chain sci_lt valid_path hd_path take_path show ?thesis
      by (simp add: path_def)
  next
    case False
    from "3.prems"(1) ex n False obtain c0 c1 where
      c0: "mk_NodeCosts s (children0 n) object (rootToNodeCost t) (level t + 1) = Inr c0" and
      c1: "mk_NodeCosts s (children1 n) object (rootToNodeCost t) (level t + 1) = Inr c1" and
      rec: "search fuel s object (rest @ [c0, c1]) path sci (Suc index) = Inr (path', sci', leaf')"
      by (auto simp: path_def sci_def Let_def split: sum.splits)
    note v0 = mk_NodeCosts_valid [OF c0] and v1 = mk_NodeCosts_valid [OF c1]
    have qok: "queue_ok s t (rest @ [c0, c1])"
      using mx v0 v1 n by (auto simp: queue_ok_def is_child_def)
    have "path' \<noteq> [] \<and> take (length path) path' = path \<and> (path = [] \<longrightarrow> hd path' = hd (rest @ [c0, c1]))
     \<and> child_chain s (map nc_node path')
     \<and> sci' < length path' \<and> leaf' = Some (last path')
     \<and> (\<forall>c \<in> set path'. valid_nc s object c)
     \<and> (case nodes s (nc_node (last path')) of None \<Rightarrow> False | Some n \<Rightarrow> IsLeaf n)"
    proof (rule "3.IH" [OF ex [symmetric] path_def sci_def n False c0 c1 rec])
      show "Suc index = length path" using "3.prems"(2) by (simp add: path_def)
      show "sci < length path \<or> path = [] \<and> sci = 0" using sci_lt by simp
      show "\<forall>c\<in>set path \<union> set (rest @ [c0, c1]). valid_nc s object c"
        using valid_path mx "3.prems"(4) v0 v1 by auto
      show "child_chain s (map nc_node path)" by (rule chain)
      show "rest @ [c0, c1] \<noteq> []" by simp
      show "path = [] \<longrightarrow> length (rest @ [c0, c1]) = 1 \<and> level (hd (rest @ [c0, c1])) = 0"
        by (simp add: path_def)
      show "path \<noteq> [] \<longrightarrow> queue_ok s (last path) (rest @ [c0, c1]) \<and>
          level (last path) = word_of_nat (length path - 1) \<and>
          (\<exists>x\<in>set (rest @ [c0, c1]). level x = level (last path) + 1)"
        using qok lvt v0 by (auto simp: path_def)
      show "length path + fuel < 2 ^ 32" using "3.prems"(9) by (simp add: path_def)
    qed
    moreover from this have "take (length cheapestPath) path' = cheapestPath"
      using take_path
      by (metis append_eq_conv_conj path_def take_add append_take_drop_id append.assoc)
    moreover from calculation hd_path have "cheapestPath = [] \<longrightarrow> hd path' = hd (q # qs)"
      by (metis hd_append2 append_take_drop_id list.distinct(1) path_def self_append_conv2 hd_take length_greater_0_conv)
    ultimately show ?thesis by simp
  qed
qed

lemma search_root:
  assumes "mk_NodeCosts s (Some r) object 0 0 = Inr nc"
    and "search fuel s object [nc] [] 0 0 = Inr (path, sci, leaf)"
    and "fuel < 2 ^ 32"
  shows "path \<noteq> [] \<and> nc_node (hd path) = r \<and> child_chain s (map nc_node path)
     \<and> sci < length path \<and> leaf = Some (last path)
     \<and> (\<forall>c \<in> set path. valid_nc s object c)
     \<and> (case nodes s (nc_node (last path)) of None \<Rightarrow> False | Some n \<Rightarrow> IsLeaf n)"
proof -
  note v = mk_NodeCosts_valid [OF assms(1)]
  have "path \<noteq> [] \<and> take (length ([]::NodeCosts list)) path = [] \<and> (([]::NodeCosts list) = [] \<longrightarrow> hd path = hd [nc])
     \<and> child_chain s (map nc_node path)
     \<and> sci < length path \<and> leaf = Some (last path)
     \<and> (\<forall>c \<in> set path. valid_nc s object c)
     \<and> (case nodes s (nc_node (last path)) of None \<Rightarrow> False | Some n \<Rightarrow> IsLeaf n)"
    using v assms(3) by (intro search_path [OF assms(2)]) simp_all
  with v show ?thesis by simp
qed

lemma commit_path_nodes:
  assumes "commit_path p s = Inr s'" and "\<forall>c \<in> set p. newAabb c = f (nc_node c)"
  shows "nodes s' = (\<lambda>a. if a \<in> nc_node ` set p then map_option (\<lambda>n. n\<lparr>bv := f a\<rparr>) (nodes s a)
                         else nodes s a)
     \<and> (\<forall>c \<in> set p. nodes s (nc_node c) \<noteq> None)
     \<and> objects s' = objects s \<and> free_addr s' = free_addr s \<and> mRoot s' = mRoot s"
  using assms
proof (induction p arbitrary: s)
  case Nil
  then show ?case by simp
next
  case (Cons c p)
  from Cons.prems(1) obtain s1 where u: "upd_Node (nc_node c) (\<lambda>n. n\<lparr>bv := newAabb c\<rparr>) s = Inr s1"
    and r: "commit_path p s1 = Inr s'"
    by (auto split: sum.splits)
  from upd_Node_Inr [OF u] obtain n where n: "nodes s (nc_node c) = Some n"
    "nodes s1 = (nodes s)(nc_node c \<mapsto> n\<lparr>bv := newAabb c\<rparr>)"
    "objects s1 = objects s" "free_addr s1 = free_addr s" "mRoot s1 = mRoot s"
    by auto
  from Cons.prems(2) have fc: "newAabb c = f (nc_node c)" and fp: "\<forall>c \<in> set p. newAabb c = f (nc_node c)"
    by simp_all
  note ih = Cons.IH [OF r fp]
  have "nodes s' = (\<lambda>a. if a \<in> nc_node ` set (c # p) then map_option (\<lambda>n. n\<lparr>bv := f a\<rparr>) (nodes s a)
                         else nodes s a)"
    using ih n fc by (auto simp: fun_eq_iff)
  moreover have "\<forall>c' \<in> set (c # p). nodes s (nc_node c') \<noteq> None"
    using ih n by (auto split: if_splits)
  ultimately show ?case using ih n by simp
qed

lemma count_irrelevant [simp]:
  "mk_NodeCosts (s\<lparr>mObjectCount := c\<rparr>) nd object cost lv = mk_NodeCosts s nd object cost lv"
  "ObjectCount fuel (s\<lparr>mObjectCount := c\<rparr>) a = ObjectCount fuel s a"
proof -
  show "mk_NodeCosts (s\<lparr>mObjectCount := c\<rparr>) nd object cost lv = mk_NodeCosts s nd object cost lv"
    by (simp add: mk_NodeCosts_def split: option.splits)
  have "count_objects fuel (s\<lparr>mObjectCount := c\<rparr>) p k = count_objects fuel s p k" for p k
    by (induction fuel s p k rule: count_objects.induct) simp_all
  then show "ObjectCount fuel (s\<lparr>mObjectCount := c\<rparr>) a = ObjectCount fuel s a"
    by (simp add: ObjectCount_def split: option.splits)
qed

lemma search_count_irrelevant [simp]:
  "search fuel (s\<lparr>mObjectCount := c\<rparr>) object q p i k = search fuel s object q p i k"
proof (induction fuel s object q p i k rule: search.induct)
  case (3 fuel s object q qs cheapestPath smallestCostIndex index)
  obtain t rest where ex: "pq_extract q qs = (t, rest)"
    by (cases "pq_extract q qs")
  show ?case
  proof (cases "nodes s (nc_node t)")
    case None
    with ex show ?thesis by (simp add: Let_def)
  next
    case (Some n)
    show ?thesis
    proof (cases "mk_NodeCosts s (children0 n) object (rootToNodeCost t) (level t + 1)")
      case (Inl e)
      with ex Some show ?thesis by (simp add: Let_def)
    next
      case c0: (Inr c0)
      show ?thesis
      proof (cases "mk_NodeCosts s (children1 n) object (rootToNodeCost t) (level t + 1)")
        case (Inl e)
        with ex Some c0 show ?thesis by (simp add: Let_def)
      next
        case c1: (Inr c1)
        show ?thesis
        proof (cases "IsLeaf n")
          case True
          with ex Some show ?thesis by (simp add: Let_def)
        next
          case False
          from "3.IH" [OF ex [symmetric] refl refl Some False c0 c1] ex Some c0 c1 False
          show ?thesis by (simp add: Let_def)
        qed
      qed
    qed
  qed
qed simp_all

lemma placement_of_count_irrelevant [simp]:
  "placement_of fuel config p i l (s\<lparr>mObjectCount := c\<rparr>) = placement_of fuel config p i l s"
  by (simp add: placement_of_def split: option.splits)

lemma Insert_unfold:
  assumes "mRoot s = Some r" and "mk_NodeCosts s (Some r) object 0 0 = Inr nc"
    and "search fuel s object [nc] [] 0 0 = Inr (path, sci, Some leaf)"
  shows "Insert fuel object config s =
     (case placement_of fuel config path sci (Some leaf) s of
        Inl e \<Rightarrow> Inl e
      | Inr Append_leaf \<Rightarrow> append_to_leaf path leaf object (s\<lparr>mObjectCount := mObjectCount s + 1\<rparr>)
      | Inr (New_parent k) \<Rightarrow> create_parent path k object (s\<lparr>mObjectCount := mObjectCount s + 1\<rparr>))"
  using assms by (simp add: Insert_def Let_def place_choose)

lemma child_chain_nth:
  "child_chain s xs \<Longrightarrow> Suc j < length xs \<Longrightarrow> is_child s (xs ! j) (xs ! Suc j)"
proof (induction s xs arbitrary: j rule: child_chain.induct)
  case (1 s a b rest)
  then show ?case by (cases j) auto
qed simp_all

lemma placement_index:
  "placement_of fuel config path sci leaf s = Inr (New_parent i) \<Longrightarrow>
     i = sci \<or> i = length path - 1"
  by (auto simp: placement_of_def split: option.splits if_splits sum.splits)

text \<open>The search and the two decisions on the tree of two leaves, for the third object of
  the row.\<close>

lemma pair_search:
  "\<exists>nc p l. mk_NodeCosts pair_tree (Some 0) 2 0 0 = Inr nc
     \<and> search (Suc (Suc 0)) pair_tree 2 [nc] [] 0 0 = Inr (p, 1, l)
     \<and> map nc_node p = [0, 2]
     \<and> map newAabb p = [\<lparr>min_c = (0, 0, 0), max_c = (3, 1, 1)\<rparr>, \<lparr>min_c = (1, 0, 0), max_c = (3, 1, 1)\<rparr>]
     \<and> placement_of (Suc (Suc 0)) config1 p 1 l pair_tree = Inr (New_parent 1)
     \<and> placement_of (Suc (Suc 0)) default_config p 1 l pair_tree = Inr Append_leaf"
  by (simp add: pair_defs cost_defs placement_of_def ObjectCount_def default_config_def word_cmp)

lemma pair_insert:
  "\<exists>s'. Insert (Suc (Suc 0)) 2 config1 pair_tree = Inr s'"
  "\<exists>s'. Insert (Suc (Suc 0)) 2 default_config pair_tree = Inr s'"
  by (simp_all add: Insert_def pair_defs cost_defs place_def ObjectCount_def default_config_def word_cmp
       create_parent_def new_internal_def append_to_leaf_def heap_defs set_child_def)

text \<open>
  C5. When \<^verbatim>\<open>Insert\<close> appends the object to a leaf, the nodes it has recorded are the
  path from the root to that leaf; each of them gets its merged box \<open>newAabb\<close>, and no node
  off the path changes at all. (The levels are \<^verbatim>\<open>unsigned\<close>: the statement is for
  searches of fewer than \<open>2^32\<close> steps.)
\<close>

theorem Insert_append_frame:
  assumes "mRoot s = Some r"
    and "mk_NodeCosts s (Some r) object 0 0 = Inr nc"
    and "search fuel s object [nc] [] 0 0 = Inr (path, sci, leaf)"
    and "placement_of fuel config path sci leaf s = Inr Append_leaf"
    and "Insert fuel object config s = Inr s'"
    and "fuel < 2 ^ 32"
  shows "root_to_leaf s (map nc_node path)
     \<and> (\<forall>c \<in> set path. map_option bv (nodes s' (nc_node c)) = Some (newAabb c))
     \<and> (\<forall>a. a \<notin> nc_node ` set path \<longrightarrow> nodes s' a = nodes s a)
     \<and> node (objects s' object) = Some (nc_node (last path))"
proof -
  note sr = search_root [OF assms(2,3,6)]
  then have leaf: "leaf = Some (last path)" and ne: "path \<noteq> []" by simp_all
  define s1 where "s1 = s\<lparr>mObjectCount := mObjectCount s + 1\<rparr>"
  from assms(5) Insert_unfold [OF assms(1,2) assms(3) [unfolded leaf], of config] assms(4)
  have "append_to_leaf path (last path) object s1 = Inr s'"
    by (simp add: leaf s1_def)
  then obtain s2 where c: "commit_path path s1 = Inr s2"
    and a: "AddObject (nc_node (last path)) object s2 = Inr s'"
    by (auto simp: append_to_leaf_def split: sum.splits)
  define f where "f = (\<lambda>a. Aabb_merge (bv (the (nodes s a))) (obj_bv (objects s object)))"
  have fv: "\<forall>c \<in> set path. newAabb c = f (nc_node c)"
    using sr by (auto simp: valid_nc_def f_def split: option.splits)
  note cp = commit_path_nodes [OF c fv]
  note af = AddObject_frame [OF a]
  have rl: "root_to_leaf s (map nc_node path)"
    using sr assms(1) by (simp add: root_to_leaf_def hd_map last_map)
  have "\<forall>c \<in> set path. map_option bv (nodes s' (nc_node c)) = Some (newAabb c)"
  proof
    fix c assume c: "c \<in> set path"
    with cp have "map_option bv (nodes s2 (nc_node c)) = Some (f (nc_node c))"
      by (auto simp: s1_def)
    moreover have "map_option bv (nodes s' (nc_node c)) = map_option bv (nodes s2 (nc_node c))"
      using af by (cases "nc_node c = nc_node (last path)") auto
    ultimately show "map_option bv (nodes s' (nc_node c)) = Some (newAabb c)"
      using fv c by simp
  qed
  moreover have "\<forall>a. a \<notin> nc_node ` set path \<longrightarrow> nodes s' a = nodes s a"
  proof (intro allI impI)
    fix a assume "a \<notin> nc_node ` set path"
    moreover from this ne have "a \<noteq> nc_node (last path)" by auto
    ultimately show "nodes s' a = nodes s a"
      using cp af by (simp add: s1_def)
  qed
  moreover have "node (objects s' object) = Some (nc_node (last path))"
    using a by (rule AddObject_node)
  ultimately show ?thesis using rl by simp
qed

theorem Insert_append_frame_witness:
  "\<exists>s'. Insert (Suc (Suc 0)) 2 default_config pair_tree = Inr s'
     \<and> root_to_leaf pair_tree [0, 2]
     \<and> map_option bv (nodes s' 0) = Some \<lparr>min_c = (0, 0, 0), max_c = (3, 1, 1)\<rparr>
     \<and> map_option bv (nodes s' 2) = Some \<lparr>min_c = (1, 0, 0), max_c = (3, 1, 1)\<rparr>
     \<and> nodes s' 1 = nodes pair_tree 1
     \<and> node (objects s' 2) = Some 2"
proof -
  from pair_search obtain nc p l where
    h: "mk_NodeCosts pair_tree (Some 0) 2 0 0 = Inr nc"
      "search (Suc (Suc 0)) pair_tree 2 [nc] [] 0 0 = Inr (p, 1, l)"
      "map nc_node p = [0, 2]"
      "map newAabb p = [\<lparr>min_c = (0, 0, 0), max_c = (3, 1, 1)\<rparr>, \<lparr>min_c = (1, 0, 0), max_c = (3, 1, 1)\<rparr>]"
      "placement_of (Suc (Suc 0)) default_config p 1 l pair_tree = Inr Append_leaf"
    by (elim exE conjE)
  from pair_insert(2) obtain s' where s': "Insert (Suc (Suc 0)) 2 default_config pair_tree = Inr s'"
    by blast
  have r: "mRoot pair_tree = Some 0" by (simp add: pair_tree_def)
  have f: "Suc (Suc 0) < 2 ^ 32" by simp
  from h(3,4) obtain c0 c2 where p: "p = [c0, c2]" "nc_node c0 = 0" "nc_node c2 = 2"
    "newAabb c0 = \<lparr>min_c = (0, 0, 0), max_c = (3, 1, 1)\<rparr>"
    "newAabb c2 = \<lparr>min_c = (1, 0, 0), max_c = (3, 1, 1)\<rparr>"
    by auto
  from Insert_append_frame [OF r h(1,2,5) s' f] p
  have "root_to_leaf pair_tree [0, 2]
     \<and> map_option bv (nodes s' 0) = Some \<lparr>min_c = (0, 0, 0), max_c = (3, 1, 1)\<rparr>
     \<and> map_option bv (nodes s' 2) = Some \<lparr>min_c = (1, 0, 0), max_c = (3, 1, 1)\<rparr>
     \<and> nodes s' 1 = nodes pair_tree 1
     \<and> node (objects s' 2) = Some 2"
    by simp
  with s' show ?thesis by blast
qed

text \<open>
  C4. When \<^verbatim>\<open>Insert\<close> gives a node \<open>best\<close> other than the root a new parent, the node
  before \<open>best\<close> on the recorded path is a node that holds \<open>best\<close> in a child slot; \<open>k\<close> is
  the first slot that does. After the call that slot holds the new internal node \<open>m\<close>, slot
  \<open>k\<close> of \<open>m\<close> holds \<open>best\<close>, the other slot of \<open>m\<close> holds a new leaf whose list is the
  inserted object, and the root is the root it was. Every other node is what it was, but for
  the boxes of the nodes of the path above, which are merged with the box of the object: no
  other child slot changes. When the object was in no node before, no other object changes.
\<close>

theorem Insert_new_internal_slot:
  assumes "mRoot s = Some r"
    and "mk_NodeCosts s (Some r) object 0 0 = Inr nc"
    and "search fuel s object [nc] [] 0 0 = Inr (path, sci, leaf)"
    and "placement_of fuel config path sci leaf s = Inr (New_parent i)"
    and "nc_node (path ! i) \<noteq> r"
    and "Insert fuel object config s = Inr s'"
    and "fuel < 2 ^ 32"
    and "alloc_ok s"
    and "node (objects s object) \<noteq> Some (Suc (free_addr s))"
  shows "0 < i \<and> i < length path
     \<and> (\<exists>pn k. nodes s (nc_node (path ! (i - 1))) = Some pn \<and> (k = 0 \<or> k = 1)
          \<and> get_child k pn = Some (nc_node (path ! i))
          \<and> (k = 1 \<longrightarrow> children0 pn \<noteq> Some (nc_node (path ! i)))
          \<and> nodes s' (nc_node (path ! (i - 1)))
              = Some (set_child k (Some (free_addr s)) (pn\<lparr>bv := newAabb (path ! (i - 1))\<rparr>))
          \<and> nodes s' (free_addr s)
              = Some (set_child (1 - k) (Some (Suc (free_addr s)))
                  (set_child k (Some (nc_node (path ! i))) (empty_leaf (newAabb (path ! i)))))
          \<and> nodes s' (Suc (free_addr s))
              = Some ((empty_leaf (obj_bv (objects s object)))
                  \<lparr>firstObject := Some object, lastObject := Some object\<rparr>)
          \<and> node (objects s' object) = Some (Suc (free_addr s))
          \<and> (\<forall>a. a \<noteq> nc_node (path ! (i - 1)) \<and> a \<noteq> free_addr s \<and> a \<noteq> Suc (free_addr s) \<longrightarrow>
                map_option children0 (nodes s' a) = map_option children0 (nodes s a)
                \<and> map_option children1 (nodes s' a) = map_option children1 (nodes s a))
          \<and> (\<forall>a. a \<noteq> nc_node (path ! (i - 1)) \<and> a \<noteq> free_addr s \<and> a \<noteq> Suc (free_addr s) \<longrightarrow>
                nodes s' a = (if a \<in> nc_node ` set (take i path)
                   then map_option (\<lambda>n. n\<lparr>bv := Aabb_merge (bv n) (obj_bv (objects s object))\<rparr>)
                          (nodes s a)
                   else nodes s a)))
     \<and> mRoot s' = Some r \<and> free_addr s' = Suc (Suc (free_addr s))
     \<and> (node (objects s object) = None \<longrightarrow>
          next (objects s' object) = None \<and> (\<forall>h. h \<noteq> object \<longrightarrow> objects s' h = objects s h))"
proof -
  note sr = search_root [OF assms(2,3,7)]
  then have leaf: "leaf = Some (last path)" and ne: "path \<noteq> []" and sci: "sci < length path"
    and hd: "nc_node (hd path) = r" and chain: "child_chain s (map nc_node path)"
    by simp_all
  from placement_index [OF assms(4)] sci ne have i_lt: "i < length path" by auto
  have i_pos: "0 < i"
    using assms(5) hd ne by (cases i) (auto simp: hd_conv_nth)
  define best where "best = nc_node (path ! i)"
  define parent where "parent = nc_node (path ! (i - 1))"
  define m where "m = free_addr s"
  define s1 where "s1 = s\<lparr>mObjectCount := mObjectCount s + 1\<rparr>"
  from child_chain_nth [OF chain, of "i - 1"] i_pos i_lt
  have ic: "is_child s parent best"
    by (simp add: parent_def best_def)
  then obtain pn where pn: "nodes s parent = Some pn"
    and pc: "children0 pn = Some best \<or> children1 pn = Some best"
    by (auto simp: is_child_def split: option.splits)
  define k :: nat where "k = (if children0 pn \<noteq> Some best then 1 else 0)"
  have k: "k = 0 \<or> k = 1" "get_child k pn = Some best" "k = 1 \<longrightarrow> children0 pn \<noteq> Some best"
    using pc by (auto simp: k_def get_child_def)
  from assms(6) Insert_unfold [OF assms(1,2) assms(3) [unfolded leaf], of config] assms(4)
  have "create_parent path i object s1 = Inr s'"
    by (simp add: leaf s1_def)
  with assms(1,5) have ni: "new_internal path i object s1 = Inr s'"
    by (simp add: create_parent_def s1_def)
  then obtain s2 where c: "commit_path (take i path) s1 = Inr s2"
    by (auto simp: new_internal_def split: sum.splits)
  define f where "f = (\<lambda>a. Aabb_merge (bv (the (nodes s a))) (obj_bv (objects s object)))"
  have fv: "\<forall>c \<in> set (take i path). newAabb c = f (nc_node c)"
    using sr by (auto simp: valid_nc_def f_def split: option.splits dest!: in_set_takeD)
  note cp = commit_path_nodes [OF c fv]
  have pin: "path ! (i - 1) \<in> set (take i path)"
    using i_pos i_lt by (metis diff_less in_set_conv_nth length_take less_imp_le_nat
        less_numeral_extra(1) min.absorb2 nth_take)
  then have fp: "newAabb (path ! (i - 1)) = f parent"
    using fv by (simp add: parent_def)
  define p2 where "p2 = pn\<lparr>bv := newAabb (path ! (i - 1))\<rparr>"
  have p2: "nodes s2 parent = Some p2"
    using cp pin pn fp by (auto simp: s1_def parent_def p2_def)
  have fr: "free_addr s2 = m" "objects s2 = objects s"
    using cp by (simp_all add: s1_def m_def)
  have dom2: "\<forall>a. nodes s2 a \<noteq> None \<longrightarrow> a < m"
    using cp assms(8) by (auto simp: alloc_ok_def s1_def m_def split: if_splits)
  then have pm: "parent \<noteq> m" "parent \<noteq> Suc m"
    using p2 by force+
  have kk: "(if children0 p2 \<noteq> Some best then 1 else 0) = k"
    by (simp add: k_def p2_def)
  define s3 where "s3 = snd (new_Node (newAabb (path ! i)) s2)"
  define s4 where "s4 = s3\<lparr>nodes := (nodes s3)(parent \<mapsto> set_child k (Some m) p2)\<rparr>"
  define s5 where "s5 = s4\<lparr>nodes := (nodes s4)
    (m \<mapsto> set_child k (Some best) (empty_leaf (newAabb (path ! i))))\<rparr>"
  define s6 where "s6 = snd (new_Node (obj_bv (objects s5 object)) s5)"
  define s7 where "s7 = s6\<lparr>nodes := (nodes s6)
    (m \<mapsto> set_child (1 - k) (Some (Suc m))
       (set_child k (Some best) (empty_leaf (newAabb (path ! i)))))\<rparr>"
  have "new_internal path i object s1 = AddObject (Suc m) object s7"
    using c p2 i_pos kk pm fr
    by (simp add: new_internal_def Let_def new_Node_def upd_Node_def empty_leaf_def
        best_def parent_def s3_def s4_def s5_def s6_def s7_def)
  with ni have a: "AddObject (Suc m) object s7 = Inr s'" by simp
  have s7: "\<forall>a. nodes s7 a =
           (if a = Suc m then Some (empty_leaf (obj_bv (objects s object)))
            else if a = parent then Some (set_child k (Some m) p2)
            else if a = m then Some (set_child (1 - k) (Some (Suc m))
                   (set_child k (Some best) (empty_leaf (newAabb (path ! i)))))
            else nodes s2 a)"
    and o7: "objects s7 = objects s"
    using pm fr
    by (auto simp: new_Node_def empty_leaf_def s3_def s4_def s5_def s6_def s7_def)
  note af = AddObject_frame [OF a]
  have l': "nodes s' (Suc m) = Some ((empty_leaf (obj_bv (objects s object)))
                  \<lparr>firstObject := Some object, lastObject := Some object\<rparr>)"
    using AddObject_empty_node [OF a, of "empty_leaf (obj_bv (objects s object))"] s7 o7 assms(9)
    by (simp add: empty_leaf_def m_def)
  have "nodes s' parent = Some (set_child k (Some m) p2)"
    using af s7 pm by simp
  moreover have "nodes s' m = Some (set_child (1 - k) (Some (Suc m))
       (set_child k (Some best) (empty_leaf (newAabb (path ! i)))))"
    using af s7 pm by simp
  moreover have "node (objects s' object) = Some (Suc m)"
    using a by (rule AddObject_node)
  moreover have "\<forall>a. a \<noteq> parent \<and> a \<noteq> m \<and> a \<noteq> Suc m \<longrightarrow>
                map_option children0 (nodes s' a) = map_option children0 (nodes s a)
                \<and> map_option children1 (nodes s' a) = map_option children1 (nodes s a)"
    using af s7 cp by (auto simp: s1_def option.map_comp comp_def)
  moreover have "\<forall>a. a \<noteq> parent \<and> a \<noteq> m \<and> a \<noteq> Suc m \<longrightarrow>
                nodes s' a = (if a \<in> nc_node ` set (take i path)
                   then map_option (\<lambda>n. n\<lparr>bv := Aabb_merge (bv n) (obj_bv (objects s object))\<rparr>)
                          (nodes s a)
                   else nodes s a)"
  proof (intro allI impI)
    fix a assume a: "a \<noteq> parent \<and> a \<noteq> m \<and> a \<noteq> Suc m"
    with af s7 have "nodes s' a = nodes s2 a" by simp
    also have "\<dots> = (if a \<in> nc_node ` set (take i path)
                   then map_option (\<lambda>n. n\<lparr>bv := f a\<rparr>) (nodes s a) else nodes s a)"
      using cp by (simp add: s1_def)
    also have "map_option (\<lambda>n. n\<lparr>bv := f a\<rparr>) (nodes s a)
        = map_option (\<lambda>n. n\<lparr>bv := Aabb_merge (bv n) (obj_bv (objects s object))\<rparr>) (nodes s a)"
      by (cases "nodes s a") (simp_all add: f_def)
    finally show "nodes s' a = (if a \<in> nc_node ` set (take i path)
                   then map_option (\<lambda>n. n\<lparr>bv := Aabb_merge (bv n) (obj_bv (objects s object))\<rparr>)
                          (nodes s a)
                   else nodes s a)" .
  qed
  ultimately have main: "\<exists>pn k. nodes s (nc_node (path ! (i - 1))) = Some pn \<and> (k = 0 \<or> k = 1)
          \<and> get_child k pn = Some (nc_node (path ! i))
          \<and> (k = 1 \<longrightarrow> children0 pn \<noteq> Some (nc_node (path ! i)))
          \<and> nodes s' (nc_node (path ! (i - 1)))
              = Some (set_child k (Some (free_addr s)) (pn\<lparr>bv := newAabb (path ! (i - 1))\<rparr>))
          \<and> nodes s' (free_addr s)
              = Some (set_child (1 - k) (Some (Suc (free_addr s)))
                  (set_child k (Some (nc_node (path ! i))) (empty_leaf (newAabb (path ! i)))))
          \<and> nodes s' (Suc (free_addr s))
              = Some ((empty_leaf (obj_bv (objects s object)))
                  \<lparr>firstObject := Some object, lastObject := Some object\<rparr>)
          \<and> node (objects s' object) = Some (Suc (free_addr s))
          \<and> (\<forall>a. a \<noteq> nc_node (path ! (i - 1)) \<and> a \<noteq> free_addr s \<and> a \<noteq> Suc (free_addr s) \<longrightarrow>
                map_option children0 (nodes s' a) = map_option children0 (nodes s a)
                \<and> map_option children1 (nodes s' a) = map_option children1 (nodes s a))
          \<and> (\<forall>a. a \<noteq> nc_node (path ! (i - 1)) \<and> a \<noteq> free_addr s \<and> a \<noteq> Suc (free_addr s) \<longrightarrow>
                nodes s' a = (if a \<in> nc_node ` set (take i path)
                   then map_option (\<lambda>n. n\<lparr>bv := Aabb_merge (bv n) (obj_bv (objects s object))\<rparr>)
                          (nodes s a)
                   else nodes s a))"
    using pn k l' unfolding best_def parent_def m_def p2_def by blast
  have m7: "mRoot s7 = Some r" "free_addr s7 = Suc (Suc m)"
    using cp assms(1) fr
    by (simp_all add: new_Node_def s1_def s3_def s4_def s5_def s6_def s7_def)
  have root: "mRoot s' = Some r" "free_addr s' = Suc (Suc (free_addr s))"
    using af m7 AddObject_Inr [OF a] by (auto simp: m_def)
  have fresh: "node (objects s object) = None \<longrightarrow>
      next (objects s' object) = None \<and> (\<forall>h. h \<noteq> object \<longrightarrow> objects s' h = objects s h)"
  proof
    assume n: "node (objects s object) = None"
    have l7: "nodes s7 (Suc m) = Some (empty_leaf (obj_bv (objects s object)))"
      using s7 by simp
    from AddObject_fresh [OF l7, of object] n o7 a
    show "next (objects s' object) = None \<and> (\<forall>h. h \<noteq> object \<longrightarrow> objects s' h = objects s h)"
      by (auto simp: empty_leaf_def)
  qed
  from i_pos i_lt main root fresh show ?thesis by blast
qed



theorem Insert_new_internal_slot_witness:
  "\<exists>s'. Insert (Suc (Suc 0)) 2 config1 pair_tree = Inr s'
     \<and> map_option children0 (nodes s' 0) = Some (Some 1)
     \<and> map_option children1 (nodes s' 0) = Some (Some 3)
     \<and> map_option children1 (nodes s' 3) = Some (Some 2)
     \<and> map_option children0 (nodes s' 3) = Some (Some 4)
     \<and> map_option firstObject (nodes s' 4) = Some (Some 2)
     \<and> node (objects s' 2) = Some 4
     \<and> map_option children0 (nodes s' 1) = Some None
     \<and> mRoot s' = Some 0
     \<and> bvh_tree s' (Some (Inner 0 \<lparr>min_c = (0, 0, 0), max_c = (3, 1, 1)\<rparr>
           (Leaf 1 (row_box 0) [0])
           (Inner 3 \<lparr>min_c = (1, 0, 0), max_c = (3, 1, 1)\<rparr>
              (Leaf 4 (row_box 2) [2]) (Leaf 2 (row_box 1) [1]))))"
proof -
  from pair_search obtain nc p l where
    h: "mk_NodeCosts pair_tree (Some 0) 2 0 0 = Inr nc"
      "search (Suc (Suc 0)) pair_tree 2 [nc] [] 0 0 = Inr (p, 1, l)"
      "map nc_node p = [0, 2]"
      "map newAabb p = [\<lparr>min_c = (0, 0, 0), max_c = (3, 1, 1)\<rparr>, \<lparr>min_c = (1, 0, 0), max_c = (3, 1, 1)\<rparr>]"
      "placement_of (Suc (Suc 0)) config1 p 1 l pair_tree = Inr (New_parent 1)"
    by (elim exE conjE)
  from pair_insert(1) obtain s' where s': "Insert (Suc (Suc 0)) 2 config1 pair_tree = Inr s'"
    by blast
  have r: "mRoot pair_tree = Some 0" by (simp add: pair_tree_def)
  have f: "Suc (Suc 0) < 2 ^ 32" by simp
  have a: "alloc_ok pair_tree" by (auto simp: alloc_ok_def pair_tree_def split: if_splits)
  have d: "node (objects pair_tree 2) \<noteq> Some (Suc (free_addr pair_tree))"
    by (simp add: pair_defs)
  from h(3,4) obtain c0 c2 where p: "p = [c0, c2]" "nc_node c0 = 0" "nc_node c2 = 2"
    "newAabb c0 = \<lparr>min_c = (0, 0, 0), max_c = (3, 1, 1)\<rparr>"
    "newAabb c2 = \<lparr>min_c = (1, 0, 0), max_c = (3, 1, 1)\<rparr>"
    by auto
  then have b: "nc_node (p ! 1) \<noteq> 0" by simp
  have fa: "free_addr pair_tree = 3"
    "nodes pair_tree 0 = Some \<lparr>bv = \<lparr>min_c = (0, 0, 0), max_c = (2, 1, 1)\<rparr>, children0 = Some 1,
                       children1 = Some 2, firstObject = None, lastObject = None\<rparr>"
    "nodes pair_tree 1 = Some \<lparr>bv = row_box 0, children0 = None, children1 = None,
                       firstObject = Some 0, lastObject = Some 0\<rparr>"
    "nodes pair_tree 2 = Some \<lparr>bv = row_box 1, children0 = None, children1 = None,
                       firstObject = Some 1, lastObject = Some 1\<rparr>"
    "node (objects pair_tree 2) = None" "obj_bv (objects pair_tree 2) = row_box 2"
    "next (objects pair_tree 0) = None" "next (objects pair_tree 1) = None"
    by (simp_all add: pair_tree_def row_objects_def)
  note th = Insert_new_internal_slot [OF r h(1,2,5) b s' f a d]
  from th obtain pn k where t1: "nodes pair_tree (nc_node (p ! (1 - 1))) = Some pn"
    "get_child k pn = Some (nc_node (p ! 1))" "k = 0 \<or> k = 1"
    "nodes s' (nc_node (p ! (1 - 1)))
       = Some (set_child k (Some (free_addr pair_tree)) (pn\<lparr>bv := newAabb (p ! (1 - 1))\<rparr>))"
    "nodes s' (free_addr pair_tree)
       = Some (set_child (1 - k) (Some (Suc (free_addr pair_tree)))
           (set_child k (Some (nc_node (p ! 1))) (empty_leaf (newAabb (p ! 1)))))"
    "nodes s' (Suc (free_addr pair_tree))
       = Some ((empty_leaf (obj_bv (objects pair_tree 2)))
           \<lparr>firstObject := Some 2, lastObject := Some 2\<rparr>)"
    "node (objects s' 2) = Some (Suc (free_addr pair_tree))"
    "\<forall>a. a \<noteq> nc_node (p ! (1 - 1)) \<and> a \<noteq> free_addr pair_tree \<and> a \<noteq> Suc (free_addr pair_tree) \<longrightarrow>
        nodes s' a = (if a \<in> nc_node ` set (take 1 p)
           then map_option (\<lambda>n. n\<lparr>bv := Aabb_merge (bv n) (obj_bv (objects pair_tree 2))\<rparr>)
                  (nodes pair_tree a)
           else nodes pair_tree a)"
    by blast
  from th fa(5) have t2: "mRoot s' = Some 0" "next (objects s' 2) = None"
    "\<forall>h. h \<noteq> 2 \<longrightarrow> objects s' h = objects pair_tree h"
    by blast+
  from t1(1,2,3) p fa(2) have k: "k = 1"
    by (auto simp: get_child_def)
  have n0: "nodes s' 0 = Some \<lparr>bv = \<lparr>min_c = (0, 0, 0), max_c = (3, 1, 1)\<rparr>, children0 = Some 1,
                       children1 = Some 3, firstObject = None, lastObject = None\<rparr>"
    using t1(1,4) p fa(1,2) by (auto simp: k set_child_def)
  have n3: "nodes s' 3 = Some \<lparr>bv = \<lparr>min_c = (1, 0, 0), max_c = (3, 1, 1)\<rparr>, children0 = Some 4,
                       children1 = Some 2, firstObject = None, lastObject = None\<rparr>"
    using t1(5) p fa(1) by (simp add: k set_child_def empty_leaf_def)
  have n4: "nodes s' 4 = Some \<lparr>bv = row_box 2, children0 = None, children1 = None,
                       firstObject = Some 2, lastObject = Some 2\<rparr>"
    using t1(6) fa(1,6) by (simp add: empty_leaf_def)
  have n12: "nodes s' 1 = nodes pair_tree 1" "nodes s' 2 = nodes pair_tree 2"
    using t1(8) p fa(1) by simp_all
  have o: "next (objects s' 0) = None" "next (objects s' 1) = None"
    using t2(3) fa(7,8) by simp_all
  have "bvh_tree s' (Some (Inner 0 \<lparr>min_c = (0, 0, 0), max_c = (3, 1, 1)\<rparr>
           (Leaf 1 (row_box 0) [0])
           (Inner 3 \<lparr>min_c = (1, 0, 0), max_c = (3, 1, 1)\<rparr>
              (Leaf 4 (row_box 2) [2]) (Leaf 2 (row_box 1) [1]))))"
    using n0 n3 n4 n12 fa(3,4) o t2(1,2)
    by (simp add: bvh_tree_def is_tree_def)
  moreover have "node (objects s' 2) = Some 4"
    using t1(7) fa(1) by simp
  ultimately show ?thesis
    using s' n0 n3 n4 n12 fa(3) t2(1) by auto
qed

section \<open>\<^verbatim>\<open>BuildTopDown\<close>\<close>

text \<open>The second scenario of the test harness: two boxes side by side, a leaf for each.\<close>

lemma pair_tree_built:
  "BuildTopDown (Suc (Suc (Suc (Suc 0)))) [Some 0, Some 1] config1 None (Bvh_init row_objects)
     = Inr pair_tree"
  by (simp add: heap_defs attach_def clear_former_node_def pair_defs
      IsLeaf_def volume_def longest_axis_def get_center_def fun_upd_twist word_cmp)
    (simp add: numeral_2_eq_2)

lemma those_map_Some [simp]: "those (map Some xs) = Some xs"
  by (induction xs) simp_all

text \<open>
  C9. A top-down build that is handed a parent with two children ends in the run-time error
  of the source; no node is attached.
\<close>

theorem BuildTopDown_third_child_fails:
  assumes "nodes s p = Some pn" and "children0 pn \<noteq> None" and "children1 pn \<noteq> None"
    and "p < free_addr s"
  shows "BuildTopDown (Suc fuel) (map Some (first # others)) config (Some p) s
    = Inl (Runtime_error ''bvh.inl: node already have 2 children'')"
proof -
  from assms(4) have "p \<noteq> free_addr s" by simp
  with assms(1-3) show ?thesis
    by (auto simp: new_Node_def attach_def Let_def)
qed

theorem BuildTopDown_third_child_fails_witness:
  "map_option children0 (nodes pair_tree 0) = Some (Some 1)
   \<and> map_option children1 (nodes pair_tree 0) = Some (Some 2)
   \<and> 0 < free_addr pair_tree
   \<and> BuildTopDown (Suc 0) [Some 2] config1 (Some 0) pair_tree
    = Inl (Runtime_error ''bvh.inl: node already have 2 children'')"
  using BuildTopDown_third_child_fails [of pair_tree 0 _ 0 2 "[]" config1]
  by (simp add: pair_tree_def)


section \<open>Trees and lists in the heap\<close>

lemma tree_at_addr: "tree_at ns os a t \<Longrightarrow> a = tree_addr t"
  by (cases t) simp_all


lemma tree_weight_simps [simp]:
  "tree_weight (Leaf a b hs) = Suc (length hs)"
  "tree_weight (Inner a b l r) = Suc (tree_weight l + tree_weight r)"
  by (simp_all add: tree_weight_def)

lemma tree_size_pos [simp]: "0 < tree_size t"
  by (cases t) simp_all


section \<open>\<^verbatim>\<open>Clear\<close>\<close>












section \<open>\<^verbatim>\<open>Query\<close>\<close>

lemma vle_trans: "vle a b \<Longrightarrow> vle b c \<Longrightarrow> vle a c"
  by (cases a; cases b; cases c) auto

lemma encloses_trans: "encloses a b \<Longrightarrow> encloses b c \<Longrightarrow> encloses a c"
  by (auto simp: encloses_def intro: vle_trans)

lemma contained_encloses:
  "contained os t \<Longrightarrow> h \<in> set (tree_objects t) \<Longrightarrow> encloses (tree_bv t) (obj_bv (os h))"
  by (induction t) (auto simp: list_all_iff intro: encloses_trans)

lemma walk_retrieve:
  "olist (objects s) p hs \<Longrightarrow> length hs \<le> fuel \<Longrightarrow>
     walk_objects fuel retrieveIds p (s, ids)
       = Inr (s, ids @ map (\<lambda>h. obj_id (objects s h)) hs)"
proof (induction hs arbitrary: p ids fuel)
  case Nil
  then show ?case by simp
next
  case (Cons h hs)
  then obtain f where f: "fuel = Suc f" "length hs \<le> f"
    by (cases fuel) simp_all
  from Cons.prems(1) have p: "p = Some h" "olist (objects s) (next (objects s h)) hs"
    by simp_all
  from Cons.IH [OF p(2) f(2)] show ?case
    by (simp add: p f retrieveIds_def)
qed

lemma query_leaf_filter:
  "olist (objects s) p hs \<Longrightarrow> length hs \<le> fuel \<Longrightarrow>
     query_leaf fuel classify s p ids
       = Inr (ids @ map (\<lambda>h. obj_id (objects s h))
           (filter (\<lambda>h. classify (obj_bv (objects s h)) \<noteq> eOUTSIDE) hs))"
proof (induction hs arbitrary: p ids fuel)
  case Nil
  then show ?case by simp
next
  case (Cons h hs)
  then obtain f where f: "fuel = Suc f" "length hs \<le> f"
    by (cases fuel) simp_all
  from Cons.prems(1) have p: "p = Some h" "olist (objects s) (next (objects s h)) hs"
    by simp_all
  from Cons.IH [OF p(2) f(2)] show ?case
    by (simp add: p f)
qed

lemma tlo_retrieve:
  assumes "\<forall>t \<in> set ts. tree_at (nodes s) (objects s) (tree_addr t) t"
    and "sum_list (map tree_weight ts) \<le> fuel"
  shows "\<exists>xs. set xs = set (concat (map tree_objects ts))
     \<and> TraverseLevelOrderObjects fuel retrieveIds (map tree_addr ts) (s, ids)
         = Inr (s, ids @ map (\<lambda>h. obj_id (objects s h)) xs)"
  using assms
proof (induction "sum_list (map tree_size ts)" arbitrary: ts ids fuel rule: less_induct)
  case less
  show ?case
  proof (cases ts)
    case Nil
    then show ?thesis by simp
  next
    case (Cons t q)
    with less.prems(2) obtain f where f: "fuel = Suc f"
      by (cases fuel; cases t) simp_all
    from less.prems(1) Cons have t: "tree_at (nodes s) (objects s) (tree_addr t) t"
      and q: "\<forall>t \<in> set q. tree_at (nodes s) (objects s) (tree_addr t) t" by simp_all
    show ?thesis
    proof (cases t)
      case (Leaf a b hs)
      with t obtain n where n: "nodes s a = Some n" "children0 n = None" "children1 n = None"
        "olist (objects s) (firstObject n) hs"
        by (auto split: option.splits)
      from less.prems(2) Cons Leaf f have fl: "length hs \<le> f" "sum_list (map tree_weight q) \<le> f"
        by simp_all
      have "sum_list (map tree_size q) < sum_list (map tree_size ts)"
        using Cons by simp
      from less.hyps [OF this q fl(2), of "ids @ map (\<lambda>h. obj_id (objects s h)) hs"]
      obtain xs where xs: "set xs = set (concat (map tree_objects q))"
        "TraverseLevelOrderObjects f retrieveIds (map tree_addr q)
           (s, ids @ map (\<lambda>h. obj_id (objects s h)) hs)
         = Inr (s, (ids @ map (\<lambda>h. obj_id (objects s h)) hs) @ map (\<lambda>h. obj_id (objects s h)) xs)"
        by blast
      have "TraverseLevelOrderObjects fuel retrieveIds (map tree_addr ts) (s, ids)
          = Inr (s, ids @ map (\<lambda>h. obj_id (objects s h)) (hs @ xs))"
        using n xs(2) walk_retrieve [OF n(4) fl(1)]
        by (simp add: Cons Leaf f IsLeaf_def)
      moreover have "set (hs @ xs) = set (concat (map tree_objects ts))"
        using xs(1) by (simp add: Cons Leaf)
      ultimately show ?thesis by blast
    next
      case (Inner a b l r)
      with t obtain n where n: "nodes s a = Some n" "children0 n = Some (tree_addr l)"
        "children1 n = Some (tree_addr r)" "tree_at (nodes s) (objects s) (tree_addr l) l"
        "tree_at (nodes s) (objects s) (tree_addr r) r"
        by (auto split: option.splits dest: tree_at_addr)
      have m: "sum_list (map tree_size (q @ [l, r])) < sum_list (map tree_size ts)"
        using Cons Inner by simp
      have w: "sum_list (map tree_weight (q @ [l, r])) \<le> f"
        using less.prems(2) Cons Inner f by simp
      have a: "\<forall>t \<in> set (q @ [l, r]). tree_at (nodes s) (objects s) (tree_addr t) t"
        using q n by simp
      from less.hyps [OF m a w, of ids]
      obtain xs where xs: "set xs = set (concat (map tree_objects (q @ [l, r])))"
        "TraverseLevelOrderObjects f retrieveIds (map tree_addr (q @ [l, r])) (s, ids)
         = Inr (s, ids @ map (\<lambda>h. obj_id (objects s h)) xs)"
        by blast
      have "TraverseLevelOrderObjects fuel retrieveIds (map tree_addr ts) (s, ids)
          = Inr (s, ids @ map (\<lambda>h. obj_id (objects s h)) xs)"
        using n xs(2) by (simp add: Cons Inner f IsLeaf_def)
      moreover have "set xs = set (concat (map tree_objects ts))"
        using xs(1) by (auto simp: Cons Inner)
      ultimately show ?thesis by blast
    qed
  qed
qed

lemma query_loop_visible:
  assumes "\<forall>t \<in> set ts. tree_at (nodes s) (objects s) (tree_addr t) t \<and> contained (objects s) t
        \<and> (\<forall>h \<in> set (tree_objects t). proper (obj_bv (objects s h)))"
    and "respects_enclosure classify"
    and "sum_list (map (\<lambda>t. tree_size t + tree_weight t) ts) \<le> fuel"
  shows "\<exists>xs. set xs = {h \<in> set (concat (map tree_objects ts)).
                         classify (obj_bv (objects s h)) \<noteq> eOUTSIDE}
     \<and> query_loop fuel classify s (map (\<lambda>t. Some (tree_addr t)) ts) ids
         = Inr (ids @ map (\<lambda>h. obj_id (objects s h)) xs)"
  using assms
proof (induction "sum_list (map tree_size ts)" arbitrary: ts ids fuel rule: less_induct)
  case less
  let ?vis = "\<lambda>ts. {h \<in> set (concat (map tree_objects ts)).
                         classify (obj_bv (objects s h)) \<noteq> eOUTSIDE}"
  let ?oid = "\<lambda>h. obj_id (objects s h)"
  show ?case
  proof (cases ts)
    case Nil
    then show ?thesis by simp
  next
    case (Cons t q)
    with less.prems(3) tree_size_pos [of t] obtain f where f: "fuel = Suc f"
      by (cases fuel) auto
    from less.prems(1) Cons have t: "tree_at (nodes s) (objects s) (tree_addr t) t"
      and ct: "contained (objects s) t"
      and pt: "\<forall>h \<in> set (tree_objects t). proper (obj_bv (objects s h))"
      and q: "\<forall>t \<in> set q. tree_at (nodes s) (objects s) (tree_addr t) t \<and> contained (objects s) t
        \<and> (\<forall>h \<in> set (tree_objects t). proper (obj_bv (objects s h)))"
      by simp_all
    from t obtain n where n: "nodes s (tree_addr t) = Some n" "bv n = tree_bv t"
      by (cases t) (auto split: option.splits)
    have mq: "sum_list (map tree_size q) < sum_list (map tree_size ts)"
      using Cons by simp
    have wq: "sum_list (map (\<lambda>t. tree_size t + tree_weight t) q) \<le> f"
      using less.prems(3) Cons f tree_size_pos [of t] by (simp del: tree_size_pos)
    have enc: "\<forall>h \<in> set (tree_objects t). encloses (bv n) (obj_bv (objects s h))"
      using contained_encloses [OF ct] n(2) by simp
    show ?thesis
    proof (cases "classify (bv n)")
      case eOUTSIDE
      with enc pt less.prems(2) have "\<forall>h \<in> set (tree_objects t). classify (obj_bv (objects s h)) = eOUTSIDE"
        by (auto simp: respects_enclosure_def)
      then have v: "?vis ts = ?vis q" by (auto simp: Cons)
      from less.hyps [OF mq q less.prems(2) wq, of ids] obtain xs where
        xs: "set xs = ?vis q" "query_loop f classify s (map (\<lambda>t. Some (tree_addr t)) q) ids
           = Inr (ids @ map ?oid xs)"
        by blast
      have "query_loop fuel classify s (map (\<lambda>t. Some (tree_addr t)) ts) ids = Inr (ids @ map ?oid xs)"
        using n eOUTSIDE xs(2) by (simp add: Cons f)
      with xs(1) v show ?thesis by blast
    next
      case eINSIDE
      with enc pt less.prems(2) have al: "\<forall>h \<in> set (tree_objects t). classify (obj_bv (objects s h)) \<noteq> eOUTSIDE"
        by (auto simp: respects_enclosure_def)
      have "tree_weight t \<le> f"
        using less.prems(3) Cons f tree_size_pos [of t] by (simp del: tree_size_pos)
      with tlo_retrieve [of "[t]" s f ids] t obtain ys where
        ys: "set ys = set (tree_objects t)"
          "TraverseLevelOrderObjects f retrieveIds [tree_addr t] (s, ids) = Inr (s, ids @ map ?oid ys)"
        by auto
      from less.hyps [OF mq q less.prems(2) wq, of "ids @ map ?oid ys"] obtain xs where
        xs: "set xs = ?vis q" "query_loop f classify s (map (\<lambda>t. Some (tree_addr t)) q) (ids @ map ?oid ys)
           = Inr ((ids @ map ?oid ys) @ map ?oid xs)"
        by blast
      have "query_loop fuel classify s (map (\<lambda>t. Some (tree_addr t)) ts) ids
          = Inr (ids @ map ?oid (ys @ xs))"
        using n eINSIDE ys(2) xs(2) by (simp add: Cons f)
      moreover have "set (ys @ xs) = ?vis ts"
        using ys(1) xs(1) al by (auto simp: Cons)
      ultimately show ?thesis by blast
    next
      case eINTERSECTING
      show ?thesis
      proof (cases t)
        case (Leaf a b hs)
        with t n have l: "children0 n = None" "olist (objects s) (firstObject n) hs"
          by (auto split: option.splits)
        have "length hs \<le> f"
          using less.prems(3) Cons f Leaf by simp
        note ql = query_leaf_filter [OF l(2) this, of classify ids]
        define ys where "ys = filter (\<lambda>h. classify (obj_bv (objects s h)) \<noteq> eOUTSIDE) hs"
        from less.hyps [OF mq q less.prems(2) wq, of "ids @ map ?oid ys"] obtain xs where
          xs: "set xs = ?vis q" "query_loop f classify s (map (\<lambda>t. Some (tree_addr t)) q) (ids @ map ?oid ys)
             = Inr ((ids @ map ?oid ys) @ map ?oid xs)"
          by blast
        have "query_loop fuel classify s (map (\<lambda>t. Some (tree_addr t)) ts) ids
            = Inr (ids @ map ?oid (ys @ xs))"
          using n eINTERSECTING l(1) ql xs(2)
          by (simp add: Cons f IsLeaf_def ys_def Leaf)
        moreover have "set (ys @ xs) = ?vis ts"
          using xs(1) by (auto simp: Cons Leaf ys_def)
        ultimately show ?thesis by blast
      next
        case (Inner a b l r)
        with t n ct pt have c: "children0 n = Some (tree_addr l)" "children1 n = Some (tree_addr r)"
          "tree_at (nodes s) (objects s) (tree_addr l) l \<and> contained (objects s) l
             \<and> (\<forall>h \<in> set (tree_objects l). proper (obj_bv (objects s h)))"
          "tree_at (nodes s) (objects s) (tree_addr r) r \<and> contained (objects s) r
             \<and> (\<forall>h \<in> set (tree_objects r). proper (obj_bv (objects s h)))"
          by (auto split: option.splits dest: tree_at_addr)
        have m: "sum_list (map tree_size (r # l # q)) < sum_list (map tree_size ts)"
          by (simp add: Cons Inner)
        have w: "sum_list (map (\<lambda>t. tree_size t + tree_weight t) (r # l # q)) \<le> f"
          using less.prems(3) f by (simp add: Cons Inner)
        have a: "\<forall>t \<in> set (r # l # q). tree_at (nodes s) (objects s) (tree_addr t) t
            \<and> contained (objects s) t
            \<and> (\<forall>h \<in> set (tree_objects t). proper (obj_bv (objects s h)))"
          using c q by simp
        from less.hyps [OF m a less.prems(2) w, of ids] obtain xs where
          xs: "set xs = ?vis (r # l # q)"
            "query_loop f classify s (map (\<lambda>t. Some (tree_addr t)) (r # l # q)) ids
             = Inr (ids @ map ?oid xs)"
          by blast
        have "query_loop fuel classify s (map (\<lambda>t. Some (tree_addr t)) ts) ids
            = Inr (ids @ map ?oid xs)"
          using n eINTERSECTING c(1,2) xs(2)
          by (simp add: Cons f IsLeaf_def Inner)
        moreover have "set xs = ?vis ts"
          using xs(1) by (auto simp: Cons Inner)
        ultimately show ?thesis by blast
      qed
    qed
  qed
qed

lemma left_of_respects: "respects_enclosure (left_of c)"
  unfolding respects_enclosure_def
proof (intro allI impI)
  fix a b
  assume e: "encloses a b \<and> proper b"
  obtain a0 a1 a2 where a0: "min_c a = (a0, a1, a2)" by (cases "min_c a") auto
  obtain a3 a4 a5 where a1: "max_c a = (a3, a4, a5)" by (cases "max_c a") auto
  obtain b0 b1 b2 where b0: "min_c b = (b0, b1, b2)" by (cases "min_c b") auto
  obtain b3 b4 b5 where b1: "max_c b = (b3, b4, b5)" by (cases "max_c b") auto
  from e show "(left_of c a = eOUTSIDE \<longrightarrow> left_of c b = eOUTSIDE)
        \<and> (left_of c a = eINSIDE \<longrightarrow> left_of c b \<noteq> eOUTSIDE)"
    by (auto simp: left_of_def encloses_def proper_def a0 a1 b0 b1 split: if_splits)
qed


text \<open>
  C1. On a tree that satisfies the containment invariant, whose objects have proper boxes,
  and for a frustum test that respects enclosure, \<^verbatim>\<open>Query\<close> returns, and the ids it returns
  are exactly the ids of the objects of the tree whose box is not classified outside, the
  set that testing every object gives.
\<close>

theorem Query_exact:
  assumes "bvh_tree s t"
    and "case t of None \<Rightarrow> True | Some tr \<Rightarrow> contained (objects s) tr"
    and "\<forall>h \<in> set (objects_of t). proper (obj_bv (objects s h))"
    and "respects_enclosure classify"
    and "(case t of None \<Rightarrow> 1 | Some tr \<Rightarrow> tree_size tr + tree_weight tr) \<le> fuel"
  shows "\<exists>ids. Query fuel classify s = Inr ids
     \<and> set ids = {obj_id (objects s h) |h. h \<in> set (objects_of t)
                     \<and> classify (obj_bv (objects s h)) \<noteq> eOUTSIDE}"
proof (cases t)
  case None
  with assms(1,5) obtain f where "mRoot s = None" "fuel = Suc f"
    by (cases fuel) (simp_all add: bvh_tree_def)
  then show ?thesis
    by (simp add: Query_def None objects_of_def)
next
  case (Some tr)
  with assms have r: "mRoot s = Some (tree_addr tr)"
    and tr: "tree_at (nodes s) (objects s) (tree_addr tr) tr" "contained (objects s) tr"
    and w: "tree_size tr + tree_weight tr \<le> fuel"
    and pr: "\<forall>h \<in> set (tree_objects tr). proper (obj_bv (objects s h))"
    by (simp_all add: bvh_tree_def is_tree_def objects_of_def)
  from query_loop_visible [of "[tr]" s classify fuel "[]"] tr pr assms(4) w
  obtain xs where xs: "set xs = {h \<in> set (tree_objects tr). classify (obj_bv (objects s h)) \<noteq> eOUTSIDE}"
    "query_loop fuel classify s [Some (tree_addr tr)] [] = Inr (map (\<lambda>h. obj_id (objects s h)) xs)"
    by auto
  have "Query fuel classify s = Inr (map (\<lambda>h. obj_id (objects s h)) xs)"
    using xs(2) r by (simp add: Query_def)
  moreover have "set (map (\<lambda>h. obj_id (objects s h)) xs)
      = {obj_id (objects s h) |h. h \<in> set (objects_of t)
                     \<and> classify (obj_bv (objects s h)) \<noteq> eOUTSIDE}"
    using xs(1) by (auto simp: Some objects_of_def)
  ultimately show ?thesis by blast
qed

theorem Query_exact_witness:
  "bvh_tree pair_tree (Some pair_shape) \<and> contained (objects pair_tree) pair_shape
   \<and> proper (obj_bv (objects pair_tree 0)) \<and> proper (obj_bv (objects pair_tree 1))
   \<and> respects_enclosure (left_of (1 / 2))
   \<and> tree_size pair_shape + tree_weight pair_shape \<le> 8
   \<and> (\<exists>ids. Query 8 (left_of (1 / 2)) pair_tree = Inr ids \<and> set ids = {0})"
proof -
  have a: "bvh_tree pair_tree (Some pair_shape)"
    by (simp add: bvh_tree_def is_tree_def pair_shape_def pair_tree_def row_objects_def)
  have b: "case Some pair_shape of None \<Rightarrow> True | Some tr \<Rightarrow> contained (objects pair_tree) tr"
    by (simp add: pair_shape_def pair_tree_def row_objects_def row_box_def encloses_def)
  have c: "\<forall>h \<in> set (objects_of (Some pair_shape)). proper (obj_bv (objects pair_tree h))"
    by (simp add: objects_of_def pair_shape_def pair_tree_def row_objects_def row_box_def
        proper_def)
  have d: "(case Some pair_shape of None \<Rightarrow> 1 | Some tr \<Rightarrow> tree_size tr + tree_weight tr) \<le> 8"
    by (simp add: pair_shape_def)
  have e: "{obj_id (objects pair_tree h) |h. h \<in> set (objects_of (Some pair_shape))
             \<and> left_of (1 / 2) (obj_bv (objects pair_tree h)) \<noteq> eOUTSIDE} = {0}"
    by (auto simp: objects_of_def pair_shape_def pair_tree_def row_objects_def row_box_def
        left_of_def)
  have f: "respects_enclosure (left_of (1 / 2))"
    by (rule left_of_respects)
  from Query_exact [OF a b c f d] have "\<exists>ids. Query 8 (left_of (1 / 2)) pair_tree = Inr ids
      \<and> set ids = {obj_id (objects pair_tree h) |h. h \<in> set (objects_of (Some pair_shape))
             \<and> left_of (1 / 2) (obj_bv (objects pair_tree h)) \<noteq> eOUTSIDE}" .
  then have g: "\<exists>ids. Query 8 (left_of (1 / 2)) pair_tree = Inr ids \<and> set ids = {0}"
    unfolding e .
  from b c d have "contained (objects pair_tree) pair_shape"
    "proper (obj_bv (objects pair_tree 0))" "proper (obj_bv (objects pair_tree 1))"
    "tree_size pair_shape + tree_weight pair_shape \<le> 8"
    by (simp_all add: objects_of_def pair_shape_def)
  with a f g show ?thesis by blast
qed

section \<open>\<^verbatim>\<open>QueryDebug\<close>\<close>

text \<open>The ray query on a tree with the containment invariant, for ids below \<open>2^31\<close>: it
  returns, the object it names is hit and no hit is closer, it names none exactly when nothing
  is hit, and when all hits are wanted it reports the ids of the objects that are hit.\<close>

lemma hits_of_simps [simp]:
  "hits_of i os [] = {}"
  "hits_of i os (hs @ hs') = hits_of i os hs \<union> hits_of i os hs'"
  "hits_of i os (h # hs) = (if 0 \<le> i (obj_bv (os h)) then insert h (hits_of i os hs)
     else hits_of i os hs)"
  by (auto simp: hits_of_def)

lemma ray_post_tested [simp]:
  "ray_post i os co H (v\<lparr>debug_tested_nodes := x\<rparr>) r v' = ray_post i os co H v r v'"
  "ray_post i os co H v r (v'\<lparr>debug_tested_nodes := x\<rparr>) = ray_post i os co H v r v'"
  by (simp_all add: ray_post_def)

lemma ray_post_none:
  "r < 0 \<or> bvhShortestTime v \<le> r \<Longrightarrow> ray_post i os co {} v r v"
  by (auto simp: ray_post_def)

lemma ray_post_seq:
  assumes "ray_post i os co H1 v r1 v1" "ray_post i os co H2 v1 r2 v2"
  shows "ray_post i os co (H1 \<union> H2) v (min r2 r1) v2"
proof -
  have a: "bvhShortestTime v2 \<le> bvhShortestTime v1" "bvhShortestTime v1 \<le> bvhShortestTime v"
    using assms by (simp_all add: ray_post_def)
  have b: "bvhShortestTime v2 = bvhShortestTime v \<and> closestIntersect v2 = closestIntersect v
        \<or> (\<exists>h \<in> H1 \<union> H2. i (obj_bv (os h)) = bvhShortestTime v2
              \<and> closestIntersect v2 = sint (obj_id (os h)))"
  proof -
    from assms(2) consider "bvhShortestTime v2 = bvhShortestTime v1"
        "closestIntersect v2 = closestIntersect v1"
      | h where "h \<in> H2" "i (obj_bv (os h)) = bvhShortestTime v2"
          "closestIntersect v2 = sint (obj_id (os h))"
      unfolding ray_post_def by blast
    then show ?thesis
    proof cases
      case 1
      with assms(1) show ?thesis unfolding ray_post_def by auto
    next
      case 2
      then show ?thesis by blast
    qed
  qed
  have c: "\<forall>h \<in> H1 \<union> H2. bvhShortestTime v2 \<le> i (obj_bv (os h))"
    using assms a unfolding ray_post_def by (meson Un_iff order_trans)
  have d: "min r2 r1 < 0 \<or> bvhShortestTime v2 \<le> min r2 r1"
    using assms a unfolding ray_post_def by (auto simp: min_def)
  have e: "if co then allIntersectedObjects v2 = allIntersectedObjects v
        else \<exists>xs. set xs = H1 \<union> H2
          \<and> allIntersectedObjects v2 = allIntersectedObjects v @ map (\<lambda>h. obj_id (os h)) xs"
  proof (cases co)
    case True
    with assms show ?thesis by (simp add: ray_post_def)
  next
    case False
    with assms obtain xs ys where "set xs = H1"
      "allIntersectedObjects v1 = allIntersectedObjects v @ map (\<lambda>h. obj_id (os h)) xs"
      "set ys = H2"
      "allIntersectedObjects v2 = allIntersectedObjects v1 @ map (\<lambda>h. obj_id (os h)) ys"
      unfolding ray_post_def by auto
    then have "set (xs @ ys) = H1 \<union> H2"
      "allIntersectedObjects v2 = allIntersectedObjects v @ map (\<lambda>h. obj_id (os h)) (xs @ ys)"
      by simp_all
    with False show ?thesis by metis
  qed
  from a b c d e show ?thesis
    unfolding ray_post_def by (intro conjI) (simp_all only: order_trans [OF a])
qed

lemma ray_post_skip:
  assumes "ray_post i os True H1 v r1 v1" "0 \<le> r1" "\<forall>h \<in> H2. r1 \<le> i (obj_bv (os h))"
  shows "ray_post i os True (H1 \<union> H2) v r1 v1"
  using assms unfolding ray_post_def by (auto intro: order_trans)

lemma ray_leaf_post:
  "olist (objects s) p hs \<Longrightarrow> length hs \<le> fuel \<Longrightarrow> bvhShortestTime v \<le> nst \<Longrightarrow>
     \<exists>nst' v'. ray_leaf fuel intersect co s p nst v = Inr (nst', v') \<and> nst' \<le> nst
       \<and> ray_post intersect (objects s) co (hits_of intersect (objects s) hs) v nst' v'"
proof (induction hs arbitrary: p fuel v nst)
  case Nil
  then show ?case by (simp add: ray_post_none)
next
  case (Cons h hs)
  from Cons.prems obtain f where f: "fuel = Suc f" "length hs \<le> f"
    by (cases fuel) auto
  from Cons.prems(1) have p: "p = Some h" "olist (objects s) (next (objects s h)) hs"
    by simp_all
  define tm where "tm = intersect (obj_bv (objects s h))"
  show ?case
  proof (cases "0 \<le> tm")
    case False
    from Cons.IH [OF p(2) f(2) Cons.prems(3)] False show ?thesis
      by (simp add: p f tm_def)
  next
    case True
    define v1 where "v1 = (if \<not> co
       then v\<lparr>allIntersectedObjects := allIntersectedObjects v @ [obj_id (objects s h)]\<rparr>
       else v)"
    define t1 where "t1 = (if tm < nst then tm else nst)"
    define v2 where "v2 = (if tm < bvhShortestTime v1
       then v1\<lparr>bvhShortestTime := tm, closestIntersect := sint (obj_id (objects s h))\<rparr>
       else v1)"
    have step: "ray_post intersect (objects s) co {h} v t1 v2"
      using True Cons.prems(3)
      by (auto simp: ray_post_def v2_def v1_def t1_def tm_def intro: exI [of _ "[h]"])
    have le: "bvhShortestTime v2 \<le> t1"
      using Cons.prems(3) by (auto simp: v2_def v1_def t1_def)
    from Cons.IH [OF p(2) f(2) le] obtain nst' v' where r:
      "ray_leaf f intersect co s (next (objects s h)) t1 v2 = Inr (nst', v')" "nst' \<le> t1"
      "ray_post intersect (objects s) co (hits_of intersect (objects s) hs) v2 nst' v'"
      by blast
    have "ray_leaf fuel intersect co s p nst v
        = ray_leaf f intersect co s (next (objects s h)) t1 v2"
      using True unfolding v2_def v1_def t1_def tm_def by (simp add: p f Let_def)
    with r(1) have "ray_leaf fuel intersect co s p nst v = Inr (nst', v')"
      by simp
    moreover have "nst' \<le> nst"
      using r(2) by (simp add: t1_def split: if_splits)
    moreover have "ray_post intersect (objects s) co (hits_of intersect (objects s) (h # hs))
        v nst' v'"
      using ray_post_seq [OF step r(3)] True r(2) by (simp add: tm_def min_def)
    ultimately show ?thesis by blast
  qed
qed

lemma tree_at_node: "tree_at ns os a t \<Longrightarrow> \<exists>n. ns a = Some n \<and> bv n = tree_bv t"
  by (cases t) (auto split: option.splits)

lemma entry_below:
  assumes "respects_entry i" "contained os t" "\<forall>h \<in> set (tree_objects t). proper (obj_bv (os h))"
  shows "\<forall>h \<in> hits_of i os (tree_objects t). 0 \<le> i (tree_bv t) \<and> i (tree_bv t) \<le> i (obj_bv (os h))"
proof
  fix h assume h: "h \<in> hits_of i os (tree_objects t)"
  then have "h \<in> set (tree_objects t)" "0 \<le> i (obj_bv (os h))"
    by (simp_all add: hits_of_def)
  with assms(2,3) have "encloses (tree_bv t) (obj_bv (os h)) \<and> proper (obj_bv (os h))
      \<and> 0 \<le> i (obj_bv (os h))"
    by (simp add: contained_encloses)
  with assms(1) show "0 \<le> i (tree_bv t) \<and> i (tree_bv t) \<le> i (obj_bv (os h))"
    unfolding respects_entry_def by blast
qed

lemma QueryNodesRay_post:
  assumes re: "respects_entry intersect"
  shows "tree_at (nodes s) (objects s) a t \<Longrightarrow> contained (objects s) t \<Longrightarrow>
    \<forall>h \<in> set (tree_objects t). proper (obj_bv (objects s h)) \<Longrightarrow> tree_weight t \<le> fuel \<Longrightarrow>
    bvhShortestTime v \<le> FLT_MAX \<Longrightarrow>
    \<exists>r v'. QueryNodesRay fuel intersect co s (Some a) v = Inr (r, v')
      \<and> ray_post intersect (objects s) co (hits_of intersect (objects s) (tree_objects t)) v r v'"
proof (induction t arbitrary: a fuel v)
  case (Leaf a' b hs)
  from Leaf.prems(4) obtain f where f: "fuel = Suc f" "length hs \<le> f"
    by (cases fuel) auto
  from Leaf.prems(1) obtain n where n: "nodes s a = Some n" "children0 n = None"
    "olist (objects s) (firstObject n) hs"
    by (auto split: option.splits)
  from ray_leaf_post [OF n(3) f(2) Leaf.prems(5), of intersect co] n(1,2) show ?case
    by (auto simp: f(1) IsLeaf_def)
next
  case (Inner a' b l r)
  let ?os = "objects s"
  let ?HL = "hits_of intersect ?os (tree_objects l)"
  let ?HR = "hits_of intersect ?os (tree_objects r)"
  from Inner.prems(4) obtain f where f: "fuel = Suc f" "tree_weight l \<le> f" "tree_weight r \<le> f"
    by (cases fuel) auto
  from Inner.prems(1) obtain n where n: "nodes s a = Some n" "children0 n = Some (tree_addr l)"
    "children1 n = Some (tree_addr r)"
    and tl: "tree_at (nodes s) ?os (tree_addr l) l"
    and tr: "tree_at (nodes s) ?os (tree_addr r) r"
    by (auto split: option.splits dest: tree_at_addr)
  from tree_at_node [OF tl] obtain n0 where n0: "nodes s (tree_addr l) = Some n0"
    "bv n0 = tree_bv l" by blast
  from tree_at_node [OF tr] obtain n1 where n1: "nodes s (tree_addr r) = Some n1"
    "bv n1 = tree_bv r" by blast
  from Inner.prems(2,3) have cl: "contained ?os l" "\<forall>h \<in> set (tree_objects l). proper (obj_bv (?os h))"
    and cr: "contained ?os r" "\<forall>h \<in> set (tree_objects r). proper (obj_bv (?os h))"
    by simp_all
  define t0 where "t0 = intersect (tree_bv l)"
  define t1 where "t1 = intersect (tree_bv r)"
  define v2 where "v2 = v\<lparr>debug_tested_nodes := debug_tested_nodes v @ [tree_addr l, tree_addr r]\<rparr>"
  have ml: "\<forall>h \<in> ?HL. 0 \<le> t0 \<and> t0 \<le> intersect (obj_bv (?os h))"
    unfolding t0_def by (rule entry_below [OF re cl])
  have mr: "\<forall>h \<in> ?HR. 0 \<le> t1 \<and> t1 \<le> intersect (obj_bv (?os h))"
    unfolding t1_def by (rule entry_below [OF re cr])
  have b2: "bvhShortestTime v2 \<le> FLT_MAX"
    using Inner.prems(5) by (simp add: v2_def)
  have tc: "test_child intersect s (Some (tree_addr l)) v
      = Inr (t0, v\<lparr>debug_tested_nodes := debug_tested_nodes v @ [tree_addr l]\<rparr>)"
    "test_child intersect s (Some (tree_addr r))
       (v\<lparr>debug_tested_nodes := debug_tested_nodes v @ [tree_addr l]\<rparr>) = Inr (t1, v2)"
    by (simp_all add: test_child_def n0 n1 t0_def t1_def v2_def)
  have hs: "hits_of intersect ?os (tree_objects (Inner a' b l r)) = ?HL \<union> ?HR"
    by simp
  have il: "\<exists>x v'. QueryNodesRay f intersect co s (Some (tree_addr l)) w = Inr (x, v')
      \<and> ray_post intersect ?os co ?HL w x v'" if "bvhShortestTime w \<le> FLT_MAX" for w
    using Inner.IH(1) [OF tl cl f(2) that] .
  have ir: "\<exists>x v'. QueryNodesRay f intersect co s (Some (tree_addr r)) w = Inr (x, v')
      \<and> ray_post intersect ?os co ?HR w x v'" if "bvhShortestTime w \<le> FLT_MAX" for w
    using Inner.IH(2) [OF tr cr f(3) that] .
  have nl: "\<not> IsLeaf n" by (simp add: IsLeaf_def n)
  consider (none) "t0 < 0" "t1 < 0"
    | (first) "0 \<le> t0" "0 \<le> t1" "t0 < t1"
    | (second) "0 \<le> t0" "0 \<le> t1" "\<not> t0 < t1"
    | (left) "0 \<le> t0" "t1 < 0"
    | (right) "t0 < 0" "0 \<le> t1"
    by linarith
  then have "\<exists>x v'. QueryNodesRay fuel intersect co s (Some a) v = Inr (x, v')
      \<and> ray_post intersect ?os co (?HL \<union> ?HR) v x v'"
  proof cases
    case none
    with ml mr have e: "?HL = {}" "?HR = {}" by fastforce+
    have "QueryNodesRay fuel intersect co s (Some a) v = Inr (- 1, v2)"
      using none by (simp add: f(1) n nl tc)
    moreover have "ray_post intersect ?os co (?HL \<union> ?HR) v (- 1) v2"
      unfolding e v2_def by (simp add: ray_post_none)
    ultimately show ?thesis by blast
  next
    case first
    from il [OF b2] obtain x v3 where a:
      "QueryNodesRay f intersect co s (Some (tree_addr l)) v2 = Inr (x, v3)"
      "ray_post intersect ?os co ?HL v2 x v3" by blast
    then have b3: "bvhShortestTime v3 \<le> FLT_MAX"
      using b2 by (simp add: ray_post_def)
    show ?thesis
    proof (cases "\<not> co \<or> x < 0 \<or> x > t1")
      case True
      from ir [OF b3] obtain y v4 where b:
        "QueryNodesRay f intersect co s (Some (tree_addr r)) v3 = Inr (y, v4)"
        "ray_post intersect ?os co ?HR v3 y v4" by blast
      have "QueryNodesRay fuel intersect co s (Some a) v = Inr (min y x, v4)"
        using first True a(1) b(1) by (simp add: f(1) n nl tc)
      moreover have "ray_post intersect ?os co (?HL \<union> ?HR) v (min y x) v4"
        using ray_post_seq [OF a(2) b(2)] by (simp add: v2_def)
      ultimately show ?thesis by blast
    next
      case False
      then have co: "co" and x: "0 \<le> x" "x \<le> t1" by auto
      have "QueryNodesRay fuel intersect co s (Some a) v = Inr (x, v3)"
        using first False a(1) by (simp add: f(1) n nl tc)
      moreover have "ray_post intersect ?os co (?HL \<union> ?HR) v x v3"
        using ray_post_skip [of intersect ?os ?HL v2 x v3 ?HR] a(2) x mr co
        by (fastforce simp: v2_def)
      ultimately show ?thesis by blast
    qed
  next
    case second
    from ir [OF b2] obtain x v3 where a:
      "QueryNodesRay f intersect co s (Some (tree_addr r)) v2 = Inr (x, v3)"
      "ray_post intersect ?os co ?HR v2 x v3" by blast
    then have b3: "bvhShortestTime v3 \<le> FLT_MAX"
      using b2 by (simp add: ray_post_def)
    show ?thesis
    proof (cases "\<not> co \<or> x < 0 \<or> x > t0")
      case True
      from il [OF b3] obtain y v4 where b:
        "QueryNodesRay f intersect co s (Some (tree_addr l)) v3 = Inr (y, v4)"
        "ray_post intersect ?os co ?HL v3 y v4" by blast
      have "QueryNodesRay fuel intersect co s (Some a) v = Inr (min y x, v4)"
        using second True a(1) b(1) by (simp add: f(1) n nl tc)
      moreover have "ray_post intersect ?os co (?HL \<union> ?HR) v (min y x) v4"
        using ray_post_seq [OF a(2) b(2)] by (simp add: v2_def Un_commute)
      ultimately show ?thesis by blast
    next
      case False
      then have co: "co" and x: "0 \<le> x" "x \<le> t0" by auto
      have "QueryNodesRay fuel intersect co s (Some a) v = Inr (x, v3)"
        using second False a(1) by (simp add: f(1) n nl tc)
      moreover have "ray_post intersect ?os co (?HR \<union> ?HL) v x v3"
        using ray_post_skip [of intersect ?os ?HR v2 x v3 ?HL] a(2) x ml co
        by (fastforce simp: v2_def)
      ultimately show ?thesis by (auto simp: Un_commute)
    qed
  next
    case left
    with mr have e: "?HR = {}" by fastforce
    from il [OF b2] obtain x v3 where a:
      "QueryNodesRay f intersect co s (Some (tree_addr l)) v2 = Inr (x, v3)"
      "ray_post intersect ?os co ?HL v2 x v3" by blast
    have "QueryNodesRay fuel intersect co s (Some a) v = Inr (x, v3)"
      using left a(1) by (simp add: f(1) n nl tc)
    moreover have "ray_post intersect ?os co (?HL \<union> ?HR) v x v3"
      using a(2) by (simp add: e v2_def)
    ultimately show ?thesis by blast
  next
    case right
    with ml have e: "?HL = {}" by fastforce
    from ir [OF b2] obtain x v3 where a:
      "QueryNodesRay f intersect co s (Some (tree_addr r)) v2 = Inr (x, v3)"
      "ray_post intersect ?os co ?HR v2 x v3" by blast
    have "QueryNodesRay fuel intersect co s (Some a) v = Inr (x, v3)"
      using right a(1) by (simp add: f(1) n nl tc)
    moreover have "ray_post intersect ?os co (?HL \<union> ?HR) v x v3"
      using a(2) by (simp add: e v2_def)
    ultimately show ?thesis by blast
  qed
  then show ?case unfolding hs .
qed

lemma QueryDebug_below_sign_bit:
  assumes tree: "bvh_tree s t"
    and con: "case t of None \<Rightarrow> True | Some tr \<Rightarrow> contained (objects s) tr"
    and boxes: "\<forall>h \<in> set (objects_of t). proper (obj_bv (objects s h))"
    and re: "respects_entry intersect"
    and fin: "\<forall>h \<in> set (objects_of t). intersect (obj_bv (objects s h)) < FLT_MAX"
    and ids: "\<forall>h \<in> set (objects_of t). 0 \<le> sint (obj_id (objects s h))"
    and fuel: "(case t of None \<Rightarrow> 0 | Some tr \<Rightarrow> tree_weight tr) \<le> fuel"
  shows "\<exists>r hits tested. QueryDebug fuel intersect closest_only s = Inr (r, hits, tested)
     \<and> (if hits_of intersect (objects s) (objects_of t) = {} then r = None
        else \<exists>h \<in> hits_of intersect (objects s) (objects_of t). r = Some (obj_id (objects s h))
           \<and> (\<forall>h' \<in> hits_of intersect (objects s) (objects_of t).
                 intersect (obj_bv (objects s h)) \<le> intersect (obj_bv (objects s h'))))
     \<and> (\<not> closest_only \<longrightarrow>
          set hits = (\<lambda>h. obj_id (objects s h)) ` hits_of intersect (objects s) (objects_of t))"
proof (cases t)
  case None
  with tree have "mRoot s = None" by (simp add: bvh_tree_def)
  then show ?thesis
    by (simp add: QueryDebug_def None objects_of_def)
next
  case (Some tr)
  let ?os = "objects s"
  let ?H = "hits_of intersect ?os (tree_objects tr)"
  let ?tm = "\<lambda>h. intersect (obj_bv (?os h))"
  have H: "hits_of intersect ?os (objects_of t) = ?H"
    by (simp add: Some objects_of_def)
  from tree Some have r: "mRoot s = Some (tree_addr tr)"
    and tr: "tree_at (nodes s) ?os (tree_addr tr) tr"
    by (simp_all add: bvh_tree_def is_tree_def)
  from con boxes fuel Some have c: "contained ?os tr"
    "\<forall>h \<in> set (tree_objects tr). proper (obj_bv (?os h))" "tree_weight tr \<le> fuel"
    by (simp_all add: objects_of_def)
  from tree_at_node [OF tr] obtain n where n: "nodes s (tree_addr tr) = Some n"
    "bv n = tree_bv tr" by blast
  define v0 where "v0 = \<lparr>closestIntersect = - 1, bvhShortestTime = FLT_MAX,
     allIntersectedObjects = [], debug_tested_nodes = [tree_addr tr]\<rparr>"
  have eq: "QueryDebug fuel intersect closest_only s =
     (case (if intersect (tree_bv tr) \<ge> 0
            then (case QueryNodesRay fuel intersect closest_only s (Some (tree_addr tr)) v0 of
                    Inl e \<Rightarrow> Inl e | Inr (t, v) \<Rightarrow> Inr v)
            else Inr v0) of
        Inl e \<Rightarrow> Inl e
      | Inr v \<Rightarrow>
          if closestIntersect v < 0
          then Inr (None, allIntersectedObjects v, debug_tested_nodes v)
          else Inr (Some (word_of_int (closestIntersect v)),
                    if closest_only then [word_of_int (closestIntersect v)]
                    else allIntersectedObjects v,
                    debug_tested_nodes v))"
    by (simp add: QueryDebug_def r n v0_def)
  note below = entry_below [OF re c(1,2)]
  show ?thesis
  proof (cases "0 \<le> intersect (tree_bv tr)")
    case False
    with below have "?H = {}" by fastforce
    moreover have "QueryDebug fuel intersect closest_only s = Inr (None, [], [tree_addr tr])"
      using False by (simp add: eq v0_def)
    ultimately show ?thesis
      unfolding H by simp
  next
    case True
    have "bvhShortestTime v0 \<le> FLT_MAX" by (simp add: v0_def)
    from QueryNodesRay_post [OF re tr c this, of closest_only] obtain x v where q:
      "QueryNodesRay fuel intersect closest_only s (Some (tree_addr tr)) v0 = Inr (x, v)"
      "ray_post intersect ?os closest_only ?H v0 x v" by blast
    have res: "QueryDebug fuel intersect closest_only s =
       (if closestIntersect v < 0
        then Inr (None, allIntersectedObjects v, debug_tested_nodes v)
        else Inr (Some (word_of_int (closestIntersect v)),
                  if closest_only then [word_of_int (closestIntersect v)]
                  else allIntersectedObjects v,
                  debug_tested_nodes v))"
      using True by (simp add: eq q(1))
    from q(2) have p2: "bvhShortestTime v = FLT_MAX \<and> closestIntersect v = - 1
        \<or> (\<exists>h \<in> ?H. ?tm h = bvhShortestTime v \<and> closestIntersect v = sint (obj_id (?os h)))"
      and p3: "\<forall>h \<in> ?H. bvhShortestTime v \<le> ?tm h"
      and p5: "\<not> closest_only \<longrightarrow> (\<exists>xs. set xs = ?H
          \<and> allIntersectedObjects v = map (\<lambda>h. obj_id (?os h)) xs)"
      by (auto simp: ray_post_def v0_def)
    have all: "\<not> closest_only \<longrightarrow> set (allIntersectedObjects v) = (\<lambda>h. obj_id (?os h)) ` ?H"
      using p5 by auto
    show ?thesis
    proof (cases "?H = {}")
      case True
      with p2 have "closestIntersect v = - 1" by auto
      with res all True show ?thesis
        unfolding H by simp
    next
      case False
      then obtain h0 where h0: "h0 \<in> ?H" by blast
      then have "h0 \<in> set (objects_of t)"
        by (simp add: hits_of_def Some objects_of_def)
      with fin have "?tm h0 < FLT_MAX" by blast
      with p3 h0 have "bvhShortestTime v < FLT_MAX" by fastforce
      with p2 obtain h where h: "h \<in> ?H" "?tm h = bvhShortestTime v"
        "closestIntersect v = sint (obj_id (?os h))" by auto
      from h(1) have "h \<in> set (objects_of t)"
        by (simp add: hits_of_def Some objects_of_def)
      with ids have pos: "0 \<le> sint (obj_id (?os h))" by blast
      have "QueryDebug fuel intersect closest_only s =
          Inr (Some (obj_id (?os h)),
               if closest_only then [obj_id (?os h)] else allIntersectedObjects v,
               debug_tested_nodes v)"
        using pos by (simp add: res h(3))
      moreover have "\<forall>h' \<in> ?H. ?tm h \<le> ?tm h'"
        using p3 h(2) by simp
      ultimately show ?thesis
        unfolding H using False h(1) all by auto
    qed
  qed
qed


lemma x_ray_respects: "respects_entry x_ray"
  unfolding respects_entry_def
proof (intro allI impI)
  fix a b
  assume e: "encloses a b \<and> proper b \<and> 0 \<le> x_ray b"
  obtain a0 a1 a2 where a0: "min_c a = (a0, a1, a2)" by (cases "min_c a") auto
  obtain a3 a4 a5 where a1: "max_c a = (a3, a4, a5)" by (cases "max_c a") auto
  obtain b0 b1 b2 where b0: "min_c b = (b0, b1, b2)" by (cases "min_c b") auto
  obtain b3 b4 b5 where b1: "max_c b = (b3, b4, b5)" by (cases "max_c b") auto
  from e show "0 \<le> x_ray a \<and> x_ray a \<le> x_ray b"
    by (auto simp: x_ray_def encloses_def proper_def a0 a1 b0 b1 split: if_splits)
qed

lemma QueryDebug_pair:
  "\<exists>hits tested. QueryDebug 5 x_ray closest_only pair_tree = Inr (Some 0, hits, tested)
     \<and> (\<not> closest_only \<longrightarrow> set hits = {0, 1})"
proof -
  have a: "bvh_tree pair_tree (Some pair_shape)"
    by (simp add: bvh_tree_def is_tree_def pair_shape_def pair_tree_def row_objects_def)
  have b: "case Some pair_shape of None \<Rightarrow> True | Some tr \<Rightarrow> contained (objects pair_tree) tr"
    by (simp add: pair_shape_def pair_tree_def row_objects_def row_box_def encloses_def)
  have c: "\<forall>h \<in> set (objects_of (Some pair_shape)). proper (obj_bv (objects pair_tree h))"
    by (simp add: objects_of_def pair_shape_def pair_tree_def row_objects_def row_box_def
        proper_def)
  have d: "\<forall>h \<in> set (objects_of (Some pair_shape)).
      x_ray (obj_bv (objects pair_tree h)) < FLT_MAX"
    by (simp add: objects_of_def pair_shape_def pair_tree_def row_objects_def row_box_def
        x_ray_def FLT_MAX_def)
  have e: "\<forall>h \<in> set (objects_of (Some pair_shape)). 0 \<le> sint (obj_id (objects pair_tree h))"
    by (simp add: objects_of_def pair_shape_def pair_tree_def row_objects_def)
  have f: "(case Some pair_shape of None \<Rightarrow> 0 | Some tr \<Rightarrow> tree_weight tr) \<le> 5"
    by (simp add: pair_shape_def)
  have H: "hits_of x_ray (objects pair_tree) (objects_of (Some pair_shape)) = {0, 1}"
    by (auto simp: hits_of_def objects_of_def pair_shape_def pair_tree_def row_objects_def
        row_box_def x_ray_def)
  have tm: "x_ray (obj_bv (objects pair_tree 0)) = 1" "x_ray (obj_bv (objects pair_tree (Suc 0))) = 2"
    by (simp_all add: pair_tree_def row_objects_def row_box_def x_ray_def)
  have id: "obj_id (objects pair_tree 0) = 0" "obj_id (objects pair_tree (Suc 0)) = 1"
    by (simp_all add: pair_tree_def row_objects_def)
  from QueryDebug_below_sign_bit [OF a b c x_ray_respects d e f, of closest_only]
  obtain r hits tested where q: "QueryDebug 5 x_ray closest_only pair_tree = Inr (r, hits, tested)"
    "\<exists>h \<in> {0, 1}. r = Some (obj_id (objects pair_tree h))
       \<and> (\<forall>h' \<in> {0, 1}. x_ray (obj_bv (objects pair_tree h))
             \<le> x_ray (obj_bv (objects pair_tree h')))"
    "\<not> closest_only \<longrightarrow> set hits = (\<lambda>h. obj_id (objects pair_tree h)) ` {0, 1}"
    unfolding H by auto
  from q(2) have "r = Some 0"
    by (auto simp: tm id)
  with q(1,3) show ?thesis
    by (auto simp: id)
qed

text \<open>The tree of one leaf that holds an object whose id is \<open>2^31\<close>.\<close>

lemma high_first:
  "Insert (Suc 0) 0 default_config (Bvh_init high_id_objects) =
    Inr \<lparr>nodes = [0 \<mapsto> (empty_leaf unit_box)\<lparr>firstObject := Some 0, lastObject := Some 0\<rparr>],
      objects = high_id_objects(0 := (high_id_objects 0)\<lparr>node := Some 0\<rparr>),
      free_addr = 1, mRoot = Some 0, mObjectCount = 1\<rparr>"
  by (simp add: Insert_def heap_defs scene_defs high_id_objects_def)

text \<open>
  C2, where the code leaves it. \<^verbatim>\<open>closestIntersect\<close> is an \<^verbatim>\<open>int\<close> with \<open>-1\<close> for "no hit", and
  the id of the closest object is cast to it. On the tree of one leaf whose object has the
  id \<open>2^31\<close>, the ray enters the box of the object at time 1 and the id is among the hits
  that are reported, but the cast is negative and \<^verbatim>\<open>QueryDebug\<close> returns no object, in both
  modes.
\<close>

theorem QueryDebug_high_id_none:
  "case Insert (Suc 0) 0 default_config (Bvh_init high_id_objects) of
     Inl e \<Rightarrow> False
   | Inr s \<Rightarrow> bvh_tree s (Some (Leaf 0 unit_box [0])) \<and> contained (objects s) (Leaf 0 unit_box [0])
       \<and> obj_id (objects s 0) = 2147483648 \<and> x_ray (obj_bv (objects s 0)) = 1
       \<and> QueryDebug (Suc (Suc 0)) x_ray False s = Inr (None, [2147483648], [0])
       \<and> QueryDebug (Suc (Suc 0)) x_ray True s = Inr (None, [], [0])"
  by (simp add: high_first bvh_tree_def is_tree_def scene_defs high_id_objects_def
      encloses_def x_ray_def QueryDebug_def IsLeaf_def FLT_MAX_def Let_def unit_box_def)

section \<open>The partition of the objects\<close>

text \<open>
  C3, where the code leaves it. The object 0, a box of one point, is inserted twice into the
  empty tree. The second call makes a new root above the leaf of the first call and a second
  leaf, and moves the object to the second leaf with \<^verbatim>\<open>AddObject\<close>, which does not touch
  the ends of the list of the former node: the object is on the lists of both leaves.
\<close>

theorem Insert_twice_two_leaves:
  "case Insert_range (Suc 0) [0, 0] default_config (Bvh_init point_objects) of
     Inl e \<Rightarrow> False
   | Inr s \<Rightarrow> bvh_tree s (Some (Inner 1 point_box (Leaf 0 point_box [0]) (Leaf 2 point_box [0])))
       \<and> mRoot s = Some 1
       \<and> map_option children0 (nodes s 1) = Some (Some 0)
       \<and> map_option children1 (nodes s 1) = Some (Some 2)
       \<and> map_option IsLeaf (nodes s 0) = Some True
       \<and> map_option IsLeaf (nodes s 2) = Some True
       \<and> map_option firstObject (nodes s 0) = Some (Some 0)
       \<and> map_option firstObject (nodes s 2) = Some (Some 0)"
  by (simp add: Insert_def heap_defs scene_defs point_objects_def point_box_def
      mk_NodeCosts_def Aabb_merge_def volume_def IsLeaf_def place_def
      ObjectCount_def append_to_leaf_def default_config_def cost_defs
      create_parent_def new_root_def new_internal_def set_child_def get_child_def
      bvh_tree_def is_tree_def)

text \<open>A top-down build on a tree that is not empty replaces the root: the object that was
  inserted before stays with the former root, which the tree has lost.\<close>

lemma BuildTopDown_over_tree_drops:
  "case BuildTopDown (Suc (Suc 0)) [Some 1] default_config None (dup_state 1) of
     Inl e \<Rightarrow> False
   | Inr s \<Rightarrow> bvh_tree s (Some (Leaf 1 unit_box [1])) \<and> node (objects s 0) = Some 0"
  by (simp add: heap_defs attach_def clear_former_node_def dup_state_def scene_defs
      IsLeaf_def volume_def default_config_def bvh_tree_def is_tree_def unit_box_def word_cmp)

section \<open>\<^verbatim>\<open>BuildTopDown\<close> over objects with the same box\<close>

lemma split_500: "split_height 10 500 = 6" "split_size 10 500 = 127"
  by (simp_all add: split_height.simps split_size.simps)

lemma vmax_same [simp]: "vmax c c = c"
  by (cases c) simp

lemma vmin_same [simp]: "vmin c c = c"
  by (cases c) simp

lemma foldl_same_max:
  "\<forall>h \<in> set hs. max_c (obj_bv (os h)) = c \<Longrightarrow>
     foldl (\<lambda>m object. vmax m (max_c (obj_bv (os object)))) c hs = c"
  by (induction hs) simp_all

lemma foldl_same_min:
  "\<forall>h \<in> set hs. min_c (obj_bv (os h)) = c \<Longrightarrow>
     foldl (\<lambda>m object. vmin m (min_c (obj_bv (os object)))) c hs = c"
  by (induction hs) simp_all

lemma insort_key_same: "\<forall>x \<in> set xs. f x = f y \<Longrightarrow> insort_key f y xs = y # xs"
  by (cases xs) simp_all

lemma sort_key_same: "\<forall>x \<in> set xs. f x = k \<Longrightarrow> sort_key f xs = xs"
  by (induction xs) (simp_all add: insort_key_same)

lemma Node_Depth_ordered:
  "ordered s \<Longrightarrow> a < free_addr s \<Longrightarrow> free_addr s - a \<le> fuel \<Longrightarrow>
     \<exists>d. Node_Depth fuel s a = Inr d \<and> 0 \<le> d \<and> d < int (free_addr s - a)"
proof (induction fuel arbitrary: a)
  case 0
  then show ?case by simp
next
  case (Suc fuel)
  from Suc.prems(1,2) have "nodes s a \<noteq> None"
    unfolding ordered_def by blast
  then obtain n where n: "nodes s a = Some n"
    by blast
  have ch: "\<exists>d. (case c of None \<Rightarrow> Inr 0 | Some c \<Rightarrow> Node_Depth fuel s c) = Inr d \<and> 0 \<le> d
      \<and> d + 1 < int (free_addr s - a)"
    if "c = children0 n \<or> c = children1 n" "children0 n \<noteq> None" for c
  proof (cases c)
    case None
    from that(2) obtain c0 where "children0 n = Some c0" by auto
    with Suc.prems(1) n have "a < c0 \<and> c0 < free_addr s"
      unfolding ordered_def by blast
    with None show ?thesis by simp
  next
    case (Some c')
    with that(1) Suc.prems(1) n have c': "a < c' \<and> c' < free_addr s"
      unfolding ordered_def by metis
    with Suc.prems(3) have "free_addr s - c' \<le> fuel" by linarith
    from Suc.IH [OF Suc.prems(1) _ this] c' obtain d where
      "Node_Depth fuel s c' = Inr d" "0 \<le> d" "d < int (free_addr s - c')" by blast
    with c' Some show ?thesis by auto
  qed
  show ?case
  proof (cases "IsLeaf n")
    case True
    with n Suc.prems(2) show ?thesis by simp
  next
    case False
    then have nl: "children0 n \<noteq> None" by (simp add: IsLeaf_def)
    from ch [of "children0 n"] nl obtain d0 where d0:
      "(case children0 n of None \<Rightarrow> Inr 0 | Some c \<Rightarrow> Node_Depth fuel s c) = Inr d0" "0 \<le> d0"
      "d0 + 1 < int (free_addr s - a)" by blast
    from ch [of "children1 n"] nl obtain d1 where d1:
      "(case children1 n of None \<Rightarrow> Inr 0 | Some c \<Rightarrow> Node_Depth fuel s c) = Inr d1" "0 \<le> d1"
      "d1 + 1 < int (free_addr s - a)" by blast
    have "Node_Depth (Suc fuel) s a = Inr (1 + max d0 d1)"
      using n False d0(1) d1(1) by simp
    with d0 d1 show ?thesis by auto
  qed
qed

lemma olist_frame:
  "olist os p hs \<Longrightarrow> \<forall>h \<in> set hs. next (os' h) = next (os h) \<Longrightarrow> olist os' p hs"
  by (induction hs arbitrary: p) auto

lemma tree_at_frame2:
  "tree_at ns os a t \<Longrightarrow> \<forall>b \<in> set (tree_addrs t). ns' b = ns b \<Longrightarrow>
     \<forall>h \<in> set (tree_objects t). next (os' h) = next (os h) \<Longrightarrow> tree_at ns' os' a t"
  by (induction t arbitrary: a) (auto split: option.splits intro: olist_frame)

lemma olist_snoc:
  assumes "olist os p pre" "h \<notin> set pre" "distinct pre"
    and "next (os' h) = None"
    and "pre \<noteq> [] \<longrightarrow> next (os' (last pre)) = Some h"
    and "\<forall>x \<in> set pre. x \<noteq> last pre \<longrightarrow> next (os' x) = next (os x)"
  shows "olist os' (if pre = [] then Some h else p) (pre @ [h])"
  using assms
proof (induction pre arbitrary: p)
  case Nil
  then show ?case by simp
next
  case (Cons a pre)
  show ?case
  proof (cases "pre = []")
    case True
    with Cons.prems show ?thesis by simp
  next
    case False
    with Cons.prems have "a \<noteq> last pre" by auto
    with Cons.prems False have n: "next (os' a) = next (os a)" by simp
    from Cons.prems False have "olist os' (if pre = [] then Some h else next (os a)) (pre @ [h])"
      by (intro Cons.IH) auto
    with Cons.prems(1) False n show ?thesis by simp
  qed
qed

lemma olist_last_next: "olist os p hs \<Longrightarrow> hs \<noteq> [] \<Longrightarrow> next (os (last hs)) = None"
  by (induction hs arbitrary: p) (auto split: if_splits)


lemma add_objects_fresh:
  assumes "nodes s w = Some n" "olist (objects s) (firstObject n) pre"
    and "lastObject n = (if pre = [] then None else Some (last pre))"
    and "distinct (pre @ hs)" "\<forall>h \<in> set hs. node (objects s h) = None"
  shows "\<exists>s' n'. add_objects w hs s = Inr s' \<and> nodes s' = (nodes s)(w \<mapsto> n')
     \<and> bv n' = bv n \<and> children0 n' = children0 n \<and> children1 n' = children1 n
     \<and> olist (objects s') (firstObject n') (pre @ hs)
     \<and> (\<forall>h. h \<notin> set (pre @ hs) \<longrightarrow> objects s' h = objects s h)
     \<and> free_addr s' = free_addr s \<and> mRoot s' = mRoot s \<and> mObjectCount s' = mObjectCount s"
  using assms
proof (induction hs arbitrary: s n pre)
  case Nil
  then show ?case
    by (auto intro!: exI [of _ n])
next
  case (Cons h hs)
  from Cons.prems(5) have fresh: "node (objects s h) = None" by simp
  define n1 where "n1 = n\<lparr>firstObject :=
           (if firstObject n = None then Some h else firstObject n), lastObject := Some h\<rparr>"
  have hp: "h \<notin> set pre" "distinct pre"
    using Cons.prems(4) by auto
  with Cons.prems(3) have "lastObject n \<noteq> Some h"
    by (auto split: if_splits)
  from AddObject_fresh [OF Cons.prems(1) fresh this] obtain s1 where s1:
    "AddObject w h s = Inr s1" "nodes s1 = (nodes s)(w \<mapsto> n1)"
    "free_addr s1 = free_addr s" "mRoot s1 = mRoot s" "mObjectCount s1 = mObjectCount s"
    "next (objects s1 h) = None"
    "\<forall>l. lastObject n = Some l \<longrightarrow> l \<noteq> h \<longrightarrow> next (objects s1 l) = Some h
           \<and> node (objects s1 l) = node (objects s l)
           \<and> obj_bv (objects s1 l) = obj_bv (objects s l)"
    "\<forall>x. x \<noteq> h \<longrightarrow> lastObject n \<noteq> Some x \<longrightarrow> objects s1 x = objects s x"
    unfolding n1_def by blast
  have e: "(pre = []) = (firstObject n = None)"
    using Cons.prems(2) by (cases pre) auto
  have "olist (objects s1) (if pre = [] then Some h else firstObject n) (pre @ [h])"
  proof (rule olist_snoc [where os' = "objects s1", OF Cons.prems(2) hp s1(6)])
    show "pre \<noteq> [] \<longrightarrow> next (objects s1 (last pre)) = Some h"
      using s1(7) Cons.prems(3) hp by auto
    show "\<forall>x \<in> set pre. x \<noteq> last pre \<longrightarrow> next (objects s1 x) = next (objects s x)"
      using s1(8) Cons.prems(3) hp by (auto split: if_splits)
  qed
  then have a: "olist (objects s1) (firstObject n1) (pre @ [h])"
    using e by (simp add: n1_def)
  have b: "nodes s1 w = Some n1" by (simp add: s1)
  have c: "lastObject n1 = (if pre @ [h] = [] then None else Some (last (pre @ [h])))"
    by (simp add: n1_def)
  have d: "distinct ((pre @ [h]) @ hs)"
    using Cons.prems(4) by auto
  have f: "\<forall>x \<in> set hs. node (objects s1 x) = None"
  proof
    fix x assume x: "x \<in> set hs"
    with Cons.prems(4) have "x \<noteq> h" "x \<notin> set pre" by auto
    with Cons.prems(3) have "lastObject n \<noteq> Some x" by (auto split: if_splits)
    with s1(8) \<open>x \<noteq> h\<close> have "objects s1 x = objects s x" by simp
    with Cons.prems(5) x show "node (objects s1 x) = None" by simp
  qed
  from Cons.IH [OF b a c d f] obtain s' n' where r:
    "add_objects w hs s1 = Inr s'" "nodes s' = (nodes s1)(w \<mapsto> n')"
    "bv n' = bv n1" "children0 n' = children0 n1" "children1 n' = children1 n1"
    "olist (objects s') (firstObject n') ((pre @ [h]) @ hs)"
    "\<forall>x. x \<notin> set ((pre @ [h]) @ hs) \<longrightarrow> objects s' x = objects s1 x"
    "free_addr s' = free_addr s1" "mRoot s' = mRoot s1" "mObjectCount s' = mObjectCount s1"
    by blast
  have fr: "\<forall>x. x \<notin> set (pre @ h # hs) \<longrightarrow> objects s' x = objects s x"
  proof (intro allI impI)
    fix x assume x: "x \<notin> set (pre @ h # hs)"
    then have "x \<noteq> h" "x \<notin> set pre" by auto
    with Cons.prems(3) have "lastObject n \<noteq> Some x" by (auto split: if_splits)
    with s1(8) \<open>x \<noteq> h\<close> have "objects s1 x = objects s x" by simp
    with r(7) x show "objects s' x = objects s x" by simp
  qed
  have "add_objects w (h # hs) s = Inr s'"
    by (simp add: s1(1) r(1))
  moreover have "nodes s' = (nodes s)(w \<mapsto> n')"
    by (simp add: r(2) s1(2))
  ultimately show ?case
    using r(3-6,8-10) s1(3-5) fr by (intro exI [of _ s'] exI [of _ n']) (simp add: n1_def)
qed

lemma word_count_le:
  "n < 4294967296 \<Longrightarrow> ((of_nat n :: 32 word) \<le> w) = (n \<le> unat w)"
  by (simp add: word_le_nat_alt unsigned_of_nat take_bit_nat_eq_self)

lemma depth_below_max:
  "0 \<le> d \<Longrightarrow> d < 4294967295 \<Longrightarrow> \<not> (4294967295 :: 32 word) \<le> word_of_int d"
  by (simp add: word_le_nat_alt unat_eq_nat_uint uint_word_of_int take_bit_int_eq_self)

lemma sort_same_box:
  "\<forall>h \<in> set hs. obj_bv (os h) = b \<Longrightarrow>
     sort_key (\<lambda>object. get_center (obj_bv (os object)) axis) hs = hs"
  by (rule sort_key_same [where k = "get_center b axis"]) simp

lemma ordered_step:
  assumes "ordered s" "\<forall>a. (nodes s' a \<noteq> None) = (a < free_addr s')"
    and "free_addr s \<le> free_addr s'"
    and "\<forall>a n' c. nodes s' a = Some n' \<longrightarrow> children0 n' = Some c \<or> children1 n' = Some c \<longrightarrow>
           (\<exists>n. nodes s a = Some n \<and> (children0 n = Some c \<or> children1 n = Some c))
           \<or> a < c \<and> c < free_addr s'"
  shows "ordered s'"
proof -
  have "a < c \<and> c < free_addr s'"
    if a: "nodes s' a = Some n'" "children0 n' = Some c \<or> children1 n' = Some c" for a n' c
  proof -
    from a assms(4) consider n where "nodes s a = Some n"
        "children0 n = Some c \<or> children1 n = Some c"
      | "a < c \<and> c < free_addr s'" by blast
    then show ?thesis
    proof cases
      case 1
      with assms(1) have "a < c \<and> c < free_addr s"
        unfolding ordered_def by blast
      with assms(3) show ?thesis by simp
    next
      case 2
      then show ?thesis .
    qed
  qed
  with assms(2) show ?thesis
    unfolding ordered_def by blast
qed

lemma BuildTopDown_prefix:
  assumes same: "\<forall>h \<in> set (h0 # rest). obj_bv (objects s h) = b"
    and par: "case parent of None \<Rightarrow> True
                | Some p \<Rightarrow> (\<exists>pn. nodes s p = Some pn \<and> children1 pn = None)
                    \<and> mRoot s \<noteq> Some (free_addr s)"
    and ord: "ordered s"
  shows "\<exists>s3. nodes s3 (free_addr s) = Some (empty_leaf b) \<and> objects s3 = objects s
     \<and> free_addr s3 = Suc (free_addr s)
     \<and> mRoot s3 = (case parent of None \<Rightarrow> Some (free_addr s) | Some p \<Rightarrow> mRoot s)
     \<and> (\<forall>a. a \<noteq> free_addr s \<longrightarrow> Some a \<noteq> parent \<longrightarrow> nodes s3 a = nodes s a)
     \<and> (case parent of None \<Rightarrow> True
         | Some p \<Rightarrow> \<exists>pn. nodes s p = Some pn \<and> nodes s3 p =
             Some (if children0 pn = None then pn\<lparr>children0 := Some (free_addr s)\<rparr>
                   else pn\<lparr>children1 := Some (free_addr s)\<rparr>))
     \<and> ordered s3
     \<and> BuildTopDown (Suc fuel) (map Some (h0 # rest)) cfg parent s =
        (case mRoot s3 of None \<Rightarrow> Inl Invalid_access
         | Some r \<Rightarrow>
          (case Node_Depth fuel s3 r of Inl e \<Rightarrow> Inl e
           | Inr d \<Rightarrow>
             if of_nat (length (h0 # rest)) \<le> minObjects cfg \<or> volume b \<le> minVolume cfg
                  \<or> maxDepth cfg \<le> word_of_int d
             then (case clear_former_node h0 s3 of Inl e \<Rightarrow> Inl e
                   | Inr s4 \<Rightarrow> add_objects (free_addr s) (h0 # rest) s4)
             else (case BuildTopDown fuel (map Some (take (length (h0 # rest) div 2) (h0 # rest)))
                          cfg (Some (free_addr s)) s3 of
                     Inl e \<Rightarrow> Inl e
                   | Inr s5 \<Rightarrow> BuildTopDown fuel
                       (map Some (drop (length (h0 # rest) div 2) (h0 # rest))) cfg
                       (Some (free_addr s)) s5)))"
proof -
  define w where "w = free_addr s"
  have b: "\<lparr>min_c = min_c (obj_bv (objects s h0)), max_c = max_c (obj_bv (objects s h0))\<rparr> = b"
    using same by simp
  have fmax: "foldl (\<lambda>m object. vmax m (max_c (obj_bv (objects s object))))
      (max_c (obj_bv (objects s h0))) rest = max_c (obj_bv (objects s h0))"
    using same by (intro foldl_same_max) simp
  have fmin: "foldl (\<lambda>m object. vmin m (min_c (obj_bv (objects s object))))
      (min_c (obj_bv (objects s h0))) rest = min_c (obj_bv (objects s h0))"
    using same by (intro foldl_same_min) simp
  have srt: "sort_key (\<lambda>object. get_center (obj_bv (objects s object)) axis) (h0 # rest)
      = h0 # rest" for axis
    using same by (rule sort_same_box)
  have srt': "insort_key (\<lambda>object. get_center (obj_bv (objects s object)) axis) h0
      (sort_key (\<lambda>object. get_center (obj_bv (objects s object)) axis) rest) = h0 # rest" for axis
    using srt [of axis] by simp
  have free: "nodes s w = None"
    using ord by (auto simp: ordered_def w_def)
  show ?thesis
  proof (cases parent)
    case None
    define s3 where "s3 = s\<lparr>nodes := (nodes s)(w \<mapsto> empty_leaf b), free_addr := Suc w,
      mRoot := Some w, mObjectCount := of_nat (length (h0 # rest))\<rparr>"
    have "ordered s3"
      using ord
    proof (rule ordered_step)
      show "\<forall>a. (nodes s3 a \<noteq> None) = (a < free_addr s3)"
        using ord by (auto simp: ordered_def s3_def w_def)
      show "free_addr s \<le> free_addr s3"
        by (simp add: s3_def w_def)
      show "\<forall>a n' c. nodes s3 a = Some n' \<longrightarrow> children0 n' = Some c \<or> children1 n' = Some c \<longrightarrow>
           (\<exists>n. nodes s a = Some n \<and> (children0 n = Some c \<or> children1 n = Some c))
           \<or> a < c \<and> c < free_addr s3"
        by (auto simp: s3_def empty_leaf_def split: if_splits)
    qed
    moreover have "BuildTopDown (Suc fuel) (map Some (h0 # rest)) cfg parent s =
        (case mRoot s3 of None \<Rightarrow> Inl Invalid_access
         | Some r \<Rightarrow>
          (case Node_Depth fuel s3 r of Inl e \<Rightarrow> Inl e
           | Inr d \<Rightarrow>
             if of_nat (length (h0 # rest)) \<le> minObjects cfg \<or> volume b \<le> minVolume cfg
                  \<or> maxDepth cfg \<le> word_of_int d
             then (case clear_former_node h0 s3 of Inl e \<Rightarrow> Inl e
                   | Inr s4 \<Rightarrow> add_objects w (h0 # rest) s4)
             else (case BuildTopDown fuel (map Some (take (length (h0 # rest) div 2) (h0 # rest)))
                          cfg (Some w) s3 of
                     Inl e \<Rightarrow> Inl e
                   | Inr s5 \<Rightarrow> BuildTopDown fuel
                       (map Some (drop (length (h0 # rest) div 2) (h0 # rest))) cfg
                       (Some w) s5)))"
      by (simp add: None Let_def fmax fmin b new_Node_def attach_def s3_def w_def [symmetric]
          empty_leaf_def srt' del: of_nat_Suc cong: sum.case_cong if_cong)
    ultimately show ?thesis
      unfolding w_def [symmetric]
      by (intro exI [of _ s3]) (simp add: None s3_def)
  next
    case (Some p)
    with par obtain pn where pn: "nodes s p = Some pn" "children1 pn = None"
      and nr: "mRoot s \<noteq> Some w" by (auto simp: w_def)
    with ord have pw: "p < w" by (auto simp: ordered_def w_def)
    define pn' where "pn' = (if children0 pn = None then pn\<lparr>children0 := Some w\<rparr>
                   else pn\<lparr>children1 := Some w\<rparr>)"
    define s3 where "s3 = s\<lparr>free_addr := Suc w,
      nodes := (nodes s)(w \<mapsto> empty_leaf b, p \<mapsto> pn')\<rparr>"
    have "ordered s3"
      using ord
    proof (rule ordered_step)
      show "\<forall>a. (nodes s3 a \<noteq> None) = (a < free_addr s3)"
        using ord pn pw by (auto simp: ordered_def s3_def w_def)
      show "free_addr s \<le> free_addr s3"
        by (simp add: s3_def w_def)
      show "\<forall>a n' c. nodes s3 a = Some n' \<longrightarrow> children0 n' = Some c \<or> children1 n' = Some c \<longrightarrow>
           (\<exists>n. nodes s a = Some n \<and> (children0 n = Some c \<or> children1 n = Some c))
           \<or> a < c \<and> c < free_addr s3"
        using pn pw by (auto simp: s3_def pn'_def empty_leaf_def split: if_splits)
    qed
    moreover have "BuildTopDown (Suc fuel) (map Some (h0 # rest)) cfg parent s =
        (case mRoot s3 of None \<Rightarrow> Inl Invalid_access
         | Some r \<Rightarrow>
          (case Node_Depth fuel s3 r of Inl e \<Rightarrow> Inl e
           | Inr d \<Rightarrow>
             if of_nat (length (h0 # rest)) \<le> minObjects cfg \<or> volume b \<le> minVolume cfg
                  \<or> maxDepth cfg \<le> word_of_int d
             then (case clear_former_node h0 s3 of Inl e \<Rightarrow> Inl e
                   | Inr s4 \<Rightarrow> add_objects w (h0 # rest) s4)
             else (case BuildTopDown fuel (map Some (take (length (h0 # rest) div 2) (h0 # rest)))
                          cfg (Some w) s3 of
                     Inl e \<Rightarrow> Inl e
                   | Inr s5 \<Rightarrow> BuildTopDown fuel
                       (map Some (drop (length (h0 # rest) div 2) (h0 # rest))) cfg
                       (Some w) s5)))"
      using pn pw nr
      by (cases "children0 pn"; cases "mRoot s")
        (simp_all add: Some Let_def fmax fmin b new_Node_def attach_def upd_Node_def s3_def
          pn'_def w_def [symmetric] empty_leaf_def srt' del: of_nat_Suc
          cong: sum.case_cong if_cong)
    ultimately show ?thesis
      unfolding w_def [symmetric] using pn pw
      by (intro exI [of _ s3]) (simp add: Some s3_def pn'_def)
  qed
qed

lemma BuildTopDown_same:
  assumes cfg: "maxDepth cfg = 4294967295" "0 < unat (minObjects cfg)" "minVolume cfg < volume b"
  shows "hs \<noteq> [] \<Longrightarrow> distinct hs \<Longrightarrow>
    \<forall>h \<in> set hs. obj_bv (objects s h) = b \<and> node (objects s h) = None \<Longrightarrow> ordered s \<Longrightarrow>
    (case parent of None \<Rightarrow> True
     | Some p \<Rightarrow> (\<exists>pn. nodes s p = Some pn \<and> children1 pn = None)
         \<and> (\<exists>r. mRoot s = Some r \<and> r < free_addr s)) \<Longrightarrow>
    free_addr s + 2 * length hs \<le> 4294967295 \<Longrightarrow> free_addr s + 3 * length hs \<le> fuel \<Longrightarrow>
    \<exists>s' t. BuildTopDown fuel (map Some hs) cfg parent s = Inr s'
      \<and> tree_at (nodes s') (objects s') (free_addr s) t
      \<and> height t = split_height (unat (minObjects cfg)) (length hs)
      \<and> tree_size t = split_size (unat (minObjects cfg)) (length hs)
      \<and> tree_size t < 2 * length hs
      \<and> tree_objects t = hs
      \<and> (\<forall>a \<in> set (tree_addrs t). free_addr s \<le> a \<and> a < free_addr s')
      \<and> free_addr s' = free_addr s + tree_size t \<and> ordered s'
      \<and> mRoot s' = (case parent of None \<Rightarrow> Some (free_addr s) | Some p \<Rightarrow> mRoot s)
      \<and> (\<forall>a. a < free_addr s \<longrightarrow> Some a \<noteq> parent \<longrightarrow> nodes s' a = nodes s a)
      \<and> (case parent of None \<Rightarrow> True
          | Some p \<Rightarrow> \<exists>pn. nodes s p = Some pn \<and> nodes s' p =
              Some (if children0 pn = None then pn\<lparr>children0 := Some (free_addr s)\<rparr>
                    else pn\<lparr>children1 := Some (free_addr s)\<rparr>))
      \<and> (\<forall>h. h \<notin> set hs \<longrightarrow> objects s' h = objects s h)"
proof (induction "length hs" arbitrary: hs s parent fuel rule: less_induct)
  case less
  let ?m = "unat (minObjects cfg)"
  let ?w = "free_addr s"
  let ?len = "length hs"
  from less.prems(1) obtain h0 rest where hs: "hs = h0 # rest" by (cases hs) auto
  have len1: "1 \<le> ?len" by (simp add: hs)
  from less.prems(7) len1 obtain f where f: "fuel = Suc f"
    by (cases fuel) auto
  have same: "\<forall>h \<in> set (h0 # rest). obj_bv (objects s h) = b"
    using less.prems(3) hs by simp
  have par: "case parent of None \<Rightarrow> True
      | Some p \<Rightarrow> (\<exists>pn. nodes s p = Some pn \<and> children1 pn = None)
          \<and> mRoot s \<noteq> Some (free_addr s)"
    using less.prems(5) by (auto split: option.splits)
  from BuildTopDown_prefix [OF same par less.prems(4), of f cfg, folded hs]
  obtain s3 where s3: "nodes s3 ?w = Some (empty_leaf b)" "objects s3 = objects s"
    "free_addr s3 = Suc ?w"
    "mRoot s3 = (case parent of None \<Rightarrow> Some ?w | Some p \<Rightarrow> mRoot s)"
    "\<forall>a. a \<noteq> ?w \<longrightarrow> Some a \<noteq> parent \<longrightarrow> nodes s3 a = nodes s a"
    "case parent of None \<Rightarrow> True
         | Some p \<Rightarrow> \<exists>pn. nodes s p = Some pn \<and> nodes s3 p =
             Some (if children0 pn = None then pn\<lparr>children0 := Some ?w\<rparr>
                   else pn\<lparr>children1 := Some ?w\<rparr>)"
    "ordered s3"
    and run: "BuildTopDown (Suc f) (map Some hs) cfg parent s =
        (case mRoot s3 of None \<Rightarrow> Inl Invalid_access
         | Some r \<Rightarrow>
          (case Node_Depth f s3 r of Inl e \<Rightarrow> Inl e
           | Inr d \<Rightarrow>
             if of_nat ?len \<le> minObjects cfg \<or> volume b \<le> minVolume cfg
                  \<or> maxDepth cfg \<le> word_of_int d
             then (case clear_former_node h0 s3 of Inl e \<Rightarrow> Inl e
                   | Inr s4 \<Rightarrow> add_objects ?w hs s4)
             else (case BuildTopDown f (map Some (take (?len div 2) hs)) cfg (Some ?w) s3 of
                     Inl e \<Rightarrow> Inl e
                   | Inr s5 \<Rightarrow> BuildTopDown f (map Some (drop (?len div 2) hs)) cfg
                       (Some ?w) s5)))"
    by (elim exE conjE)
  have bound: "?w + 2 * ?len \<le> 4294967295" "?w + 3 * ?len \<le> Suc f"
    using less.prems(6,7) by (simp_all add: f)
  obtain r where r: "mRoot s3 = Some r" "r < Suc ?w"
    using s3(4) less.prems(5) by (cases parent) auto
  have "free_addr s3 - r \<le> f"
    using bound len1 by (simp add: s3(3))
  from Node_Depth_ordered [OF s3(7) _ this] r s3(3) obtain d where
    d: "Node_Depth f s3 r = Inr d" "0 \<le> d" "d < int (Suc ?w - r)"
    by auto
  have "d < 4294967295"
    using d(3) bound len1 by simp
  with d(2) cfg(1) have nd: "\<not> maxDepth cfg \<le> word_of_int d"
    by (simp add: depth_below_max)
  have cnt: "((of_nat ?len :: 32 word) \<le> minObjects cfg) = (?len \<le> ?m)"
    using bound by (intro word_count_le) simp
  have run': "BuildTopDown fuel (map Some hs) cfg parent s =
     (if ?len \<le> ?m
      then (case clear_former_node h0 s3 of Inl e \<Rightarrow> Inl e
            | Inr s4 \<Rightarrow> add_objects ?w hs s4)
      else (case BuildTopDown f (map Some (take (?len div 2) hs)) cfg (Some ?w) s3 of
              Inl e \<Rightarrow> Inl e
            | Inr s5 \<Rightarrow> BuildTopDown f (map Some (drop (?len div 2) hs)) cfg (Some ?w) s5))"
    using cfg(3) by (simp add: f run r d nd cnt)
  have pw: "p < ?w" if "parent = Some p" for p
    using that less.prems(4,5) by (auto simp: ordered_def)
  have fresh3: "\<forall>h \<in> set hs. obj_bv (objects s3 h) = b \<and> node (objects s3 h) = None"
    using less.prems(3) by (simp add: s3(2))
  show ?case
  proof (cases "?len \<le> ?m")
    case True
    have "clear_former_node h0 s3 = Inr s3"
      using fresh3 by (simp add: clear_former_node_def hs)
    moreover
    from add_objects_fresh [of s3 ?w "empty_leaf b" "[]" hs] s3(1) less.prems(2) fresh3
    obtain s' n' where a: "add_objects ?w hs s3 = Inr s'" "nodes s' = (nodes s3)(?w \<mapsto> n')"
      "bv n' = b" "children0 n' = None" "children1 n' = None"
      "olist (objects s') (firstObject n') hs"
      "\<forall>h. h \<notin> set hs \<longrightarrow> objects s' h = objects s3 h"
      "free_addr s' = free_addr s3" "mRoot s' = mRoot s3"
      by (auto simp: empty_leaf_def)
    ultimately have res: "BuildTopDown fuel (map Some hs) cfg parent s = Inr s'"
      using True by (simp add: run')
    have ord: "ordered s'"
      using s3(7)
    proof (rule ordered_step)
      show "\<forall>a. (nodes s' a \<noteq> None) = (a < free_addr s')"
        using s3(7) by (auto simp: ordered_def a(2,8) s3(3))
      show "free_addr s3 \<le> free_addr s'" by (simp add: a(8))
      show "\<forall>a n'' c. nodes s' a = Some n'' \<longrightarrow> children0 n'' = Some c \<or> children1 n'' = Some c \<longrightarrow>
           (\<exists>n. nodes s3 a = Some n \<and> (children0 n = Some c \<or> children1 n = Some c))
           \<or> a < c \<and> c < free_addr s'"
        using a(3-5) by (auto simp: a(2) split: if_splits)
    qed
    have t: "tree_at (nodes s') (objects s') ?w (Leaf ?w b hs)"
      using a(3-6) by (simp add: a(2))
    have sh: "split_height ?m ?len = 0" "split_size ?m ?len = 1"
      using True by (simp_all add: split_height.simps split_size.simps)
    have fr: "\<forall>a. a < ?w \<longrightarrow> Some a \<noteq> parent \<longrightarrow> nodes s' a = nodes s a"
      using s3(5) by (simp add: a(2))
    have pp: "case parent of None \<Rightarrow> True
          | Some p \<Rightarrow> \<exists>pn. nodes s p = Some pn \<and> nodes s' p =
              Some (if children0 pn = None then pn\<lparr>children0 := Some ?w\<rparr>
                    else pn\<lparr>children1 := Some ?w\<rparr>)"
      using s3(6) pw by (auto simp: a(2) split: option.splits)
    have c1: "height (Leaf ?w b hs) = split_height ?m ?len"
      "tree_size (Leaf ?w b hs) = split_size ?m ?len"
      "tree_size (Leaf ?w b hs) < 2 * ?len" "tree_objects (Leaf ?w b hs) = hs"
      using len1 by (simp_all add: sh)
    have c2: "\<forall>a \<in> set (tree_addrs (Leaf ?w b hs)). ?w \<le> a \<and> a < free_addr s'"
      by (simp add: a(8) s3(3))
    have c3: "free_addr s' = ?w + tree_size (Leaf ?w b hs)"
      by (simp add: a(8) s3(3))
    have c4: "mRoot s' = (case parent of None \<Rightarrow> Some ?w | Some p \<Rightarrow> mRoot s)"
      by (simp add: a(9) s3(4))
    have c5: "\<forall>h. h \<notin> set hs \<longrightarrow> objects s' h = objects s h"
      using a(7) by (simp add: s3(2))
    show ?thesis
      apply (rule exI [of _ s'])
      apply (rule exI [of _ "Leaf ?w b hs"])
      using res t c1 c2 c3 ord c4 fr pp c5 by blast
  next
    case False
    with cfg(2) have len2: "2 \<le> ?len" by simp
    define l1 where "l1 = take (?len div 2) hs"
    define l2 where "l2 = drop (?len div 2) hs"
    have ll: "length l1 = ?len div 2" "length l2 = ?len - ?len div 2" "hs = l1 @ l2"
      by (simp_all add: l1_def l2_def)
    have ll': "1 \<le> length l1" "1 \<le> length l2" "length l1 + length l2 = ?len"
      using len2 by (simp_all add: ll(1,2))
    have dist: "distinct l1" "distinct l2" "set l1 \<inter> set l2 = {}"
      using less.prems(2) by (simp_all add: ll(3))
    \<comment> \<open>the first half\<close>
    have i1: "length l1 < length hs" using ll' by simp
    have n1: "l1 \<noteq> []" using ll'(1) by auto
    have f1: "\<forall>h \<in> set l1. obj_bv (objects s3 h) = b \<and> node (objects s3 h) = None"
      using fresh3 by (simp add: ll(3))
    have p1: "case Some ?w of None \<Rightarrow> True
     | Some p \<Rightarrow> (\<exists>pn. nodes s3 p = Some pn \<and> children1 pn = None)
         \<and> (\<exists>r. mRoot s3 = Some r \<and> r < free_addr s3)"
      using s3(1,3) r by (simp add: empty_leaf_def)
    have b1: "free_addr s3 + 2 * length l1 \<le> 4294967295" "free_addr s3 + 3 * length l1 \<le> f"
      using bound ll' by (simp_all add: s3(3))
    from less.hyps [OF i1 n1 dist(1) f1 s3(7) p1 b1]
    obtain s5 t1 where s5: "BuildTopDown f (map Some l1) cfg (Some ?w) s3 = Inr s5"
      "tree_at (nodes s5) (objects s5) (Suc ?w) t1"
      "height t1 = split_height ?m (length l1)"
      "tree_size t1 = split_size ?m (length l1)"
      "tree_size t1 < 2 * length l1"
      "tree_objects t1 = l1"
      "\<forall>a \<in> set (tree_addrs t1). Suc ?w \<le> a \<and> a < free_addr s5"
      "free_addr s5 = Suc ?w + tree_size t1" "ordered s5"
      "mRoot s5 = mRoot s3"
      "\<forall>a. a < Suc ?w \<longrightarrow> a \<noteq> ?w \<longrightarrow> nodes s5 a = nodes s3 a"
      "nodes s5 ?w = Some ((empty_leaf b)\<lparr>children0 := Some (Suc ?w)\<rparr>)"
      "\<forall>h. h \<notin> set l1 \<longrightarrow> objects s5 h = objects s3 h"
      unfolding s3(3) using s3(1)
      by (elim exE conjE) (simp add: empty_leaf_def)
    \<comment> \<open>the second half\<close>
    have i2: "length l2 < length hs" using ll' by simp
    have n2: "l2 \<noteq> []" using ll'(2) by auto
    have f2: "\<forall>h \<in> set l2. obj_bv (objects s5 h) = b \<and> node (objects s5 h) = None"
      using fresh3 dist(3) s5(13) by (auto simp: ll(3))
    have p2: "case Some ?w of None \<Rightarrow> True
     | Some p \<Rightarrow> (\<exists>pn. nodes s5 p = Some pn \<and> children1 pn = None)
         \<and> (\<exists>r. mRoot s5 = Some r \<and> r < free_addr s5)"
      using s5(8,10,12) r by (simp add: empty_leaf_def)
    have b2: "free_addr s5 + 2 * length l2 \<le> 4294967295" "free_addr s5 + 3 * length l2 \<le> f"
      using bound ll' s5(5) by (simp_all add: s5(8))
    from less.hyps [OF i2 n2 dist(2) f2 s5(9) p2 b2]
    obtain s6 t2 where s6: "BuildTopDown f (map Some l2) cfg (Some ?w) s5 = Inr s6"
      "tree_at (nodes s6) (objects s6) (free_addr s5) t2"
      "height t2 = split_height ?m (length l2)"
      "tree_size t2 = split_size ?m (length l2)"
      "tree_size t2 < 2 * length l2"
      "tree_objects t2 = l2"
      "\<forall>a \<in> set (tree_addrs t2). free_addr s5 \<le> a \<and> a < free_addr s6"
      "free_addr s6 = free_addr s5 + tree_size t2" "ordered s6"
      "mRoot s6 = mRoot s5"
      "\<forall>a. a < free_addr s5 \<longrightarrow> a \<noteq> ?w \<longrightarrow> nodes s6 a = nodes s5 a"
      "nodes s6 ?w = Some ((empty_leaf b)\<lparr>children0 := Some (Suc ?w),
         children1 := Some (free_addr s5)\<rparr>)"
      "\<forall>h. h \<notin> set l2 \<longrightarrow> objects s6 h = objects s5 h"
      using s5(12)
      by (elim exE conjE) (simp add: empty_leaf_def)
    have res: "BuildTopDown fuel (map Some hs) cfg parent s = Inr s6"
      using False s5(1) s6(1) by (simp add: run' l1_def [symmetric] l2_def [symmetric])
    have t1: "tree_at (nodes s6) (objects s6) (Suc ?w) t1"
    proof (rule tree_at_frame2 [OF s5(2)])
      show "\<forall>b \<in> set (tree_addrs t1). nodes s6 b = nodes s5 b"
        using s5(7) s6(11) by auto
      show "\<forall>h \<in> set (tree_objects t1). next (objects s6 h) = next (objects s5 h)"
        using s6(13) dist(3) by (auto simp: s5(6))
    qed
    define t where "t = Inner ?w b t1 t2"
    have t: "tree_at (nodes s6) (objects s6) ?w t"
      using t1 s6(2) by (simp add: t_def s6(12) empty_leaf_def)
    have sh: "split_height ?m ?len = Suc (max (split_height ?m (length l1)) (split_height ?m (length l2)))"
      "split_size ?m ?len = Suc (split_size ?m (length l1) + split_size ?m (length l2))"
      using False len2 by (simp_all add: split_height.simps [of ?m ?len] split_size.simps [of ?m ?len] ll(1,2))
    have ad: "\<forall>a \<in> set (tree_addrs t). ?w \<le> a \<and> a < free_addr s6"
      using s5(7,8) s6(7,8) by (auto simp: t_def)
    have fr: "\<forall>a. a < ?w \<longrightarrow> Some a \<noteq> parent \<longrightarrow> nodes s6 a = nodes s a"
      using s3(5) s5(8,11) s6(11) by simp
    have pp: "case parent of None \<Rightarrow> True
          | Some p \<Rightarrow> \<exists>pn. nodes s p = Some pn \<and> nodes s6 p =
              Some (if children0 pn = None then pn\<lparr>children0 := Some ?w\<rparr>
                    else pn\<lparr>children1 := Some ?w\<rparr>)"
    proof (cases parent)
      case None
      then show ?thesis by simp
    next
      case (Some p)
      from pw [OF this] have "nodes s6 p = nodes s3 p"
        using s5(8,11) s6(11) by simp
      with s3(6) Some show ?thesis by simp
    qed
    have ob: "\<forall>h. h \<notin> set hs \<longrightarrow> objects s6 h = objects s h"
      using s5(13) s6(13) by (simp add: ll(3) s3(2))
    have c1: "height t = split_height ?m ?len"
      by (simp add: t_def sh(1) s5(3) s6(3))
    have c2: "tree_size t = split_size ?m ?len"
      by (simp add: t_def sh(2) s5(4) s6(4))
    have c3: "tree_size t < 2 * ?len"
      using s5(5) s6(5) ll'(3) by (simp add: t_def)
    have c4: "tree_objects t = hs"
      by (simp add: t_def s5(6) s6(6) ll(3) [symmetric])
    have c5: "free_addr s6 = ?w + tree_size t"
      by (simp add: t_def s6(8) s5(8))
    have c6: "mRoot s6 = (case parent of None \<Rightarrow> Some ?w | Some p \<Rightarrow> mRoot s)"
      by (simp add: s6(10) s5(10) s3(4))
    show ?thesis
      apply (rule exI [of _ s6])
      apply (rule exI [of _ t])
      using res t c1 c2 c3 c4 ad c5 s6(9) c6 fr pp ob by blast
  qed
qed

lemma Node_Depth_tree:
  "tree_at (nodes s) (objects s) a t \<Longrightarrow> height t < fuel \<Longrightarrow>
     Node_Depth fuel s a = Inr (int (height t))"
proof (induction t arbitrary: a fuel)
  case (Leaf a' b hs)
  then show ?case
    by (cases fuel) (auto simp: IsLeaf_def split: option.splits)
next
  case (Inner a' b l r)
  from Inner.prems(2) obtain f where f: "fuel = Suc f" "height l < f" "height r < f"
    by (cases fuel) auto
  from Inner.prems(1) obtain n c0 c1 where n: "nodes s a = Some n" "children0 n = Some c0"
    "children1 n = Some c1" "tree_at (nodes s) (objects s) c0 l"
    "tree_at (nodes s) (objects s) c1 r"
    by (auto split: option.splits)
  from Inner.IH(1) [OF n(4) f(2)] Inner.IH(2) [OF n(5) f(3)] n(1-3) show ?case
    by (simp add: f(1) IsLeaf_def)
qed

lemma Node_Size_tree:
  "tree_at (nodes s) (objects s) a t \<Longrightarrow> height t < fuel \<Longrightarrow>
     Node_Size fuel s (Some a) = Inr (int (tree_size t))"
proof (induction t arbitrary: a fuel)
  case (Leaf a' b hs)
  then show ?case
    by (cases fuel) (auto simp: IsLeaf_def split: option.splits)
next
  case (Inner a' b l r)
  from Inner.prems(2) obtain f where f: "fuel = Suc f" "height l < f" "height r < f"
    by (cases fuel) auto
  from Inner.prems(1) obtain n c0 c1 where n: "nodes s a = Some n" "children0 n = Some c0"
    "children1 n = Some c1" "tree_at (nodes s) (objects s) c0 l"
    "tree_at (nodes s) (objects s) c1 r"
    by (auto split: option.splits)
  from Inner.IH(1) [OF n(4) f(2)] Inner.IH(2) [OF n(5) f(3)] n(1-3) show ?case
    by (simp add: f(1) IsLeaf_def)
qed

lemma ordered_init: "ordered (Bvh_init os)"
  by (simp add: ordered_def Bvh_init_def)

text \<open>
  C6, as the code has it. A top-down build stops at a node whose box has a volume of at most
  \<^verbatim>\<open>minVolume\<close>. The box of objects that all have the unit box is the unit box, of volume 1:
  with a configuration whose \<^verbatim>\<open>minVolume\<close> is at least 1, as the one of the test harness, the
  build over any number of such objects returns, and the tree is one root leaf that holds
  them all, of depth 0 and size 1.
\<close>

theorem BuildTopDown_identical_collapses:
  assumes "1 \<le> minVolume config" "0 < n"
  shows "\<exists>s'. BuildTopDown (Suc (Suc 0)) (map Some [0..<n]) config None (Bvh_init unit_objects)
        = Inr s'
     \<and> bvh_tree s' (Some (Leaf 0 unit_box [0..<n]))
     \<and> Depth (Suc 0) s' = Inr 0 \<and> Size (Suc 0) s' = Inr 1"
proof -
  define s where "s = Bvh_init unit_objects"
  have s: "free_addr s = 0" "objects s = unit_objects"
    by (simp_all add: s_def Bvh_init_def)
  from assms(2) have hs: "[0..<n] = 0 # [1..<n]"
    by (simp add: upt_conv_Cons)
  have same: "\<forall>h \<in> set (0 # [1..<n]). obj_bv (objects s h) = unit_box"
    by (simp add: s unit_objects_def)
  have par: "case None of None \<Rightarrow> True
      | Some p \<Rightarrow> (\<exists>pn. nodes s p = Some pn \<and> children1 pn = None)
          \<and> mRoot s \<noteq> Some (free_addr s)"
    by simp
  have ord: "ordered s"
    unfolding s_def by (rule ordered_init)
  from BuildTopDown_prefix [OF same par ord, of "Suc 0" config, folded hs]
  obtain s3 where s3: "nodes s3 0 = Some (empty_leaf unit_box)" "objects s3 = unit_objects"
    "mRoot s3 = Some 0"
    and run: "BuildTopDown (Suc (Suc 0)) (map Some [0..<n]) config None s =
        (case mRoot s3 of None \<Rightarrow> Inl Invalid_access
         | Some r \<Rightarrow>
          (case Node_Depth (Suc 0) s3 r of Inl e \<Rightarrow> Inl e
           | Inr d \<Rightarrow>
             if of_nat (length [0..<n]) \<le> minObjects config \<or> volume unit_box \<le> minVolume config
                  \<or> maxDepth config \<le> word_of_int d
             then (case clear_former_node 0 s3 of Inl e \<Rightarrow> Inl e
                   | Inr s4 \<Rightarrow> add_objects (free_addr s) [0..<n] s4)
             else (case BuildTopDown (Suc 0) (map Some (take (length [0..<n] div 2) [0..<n]))
                          config (Some (free_addr s)) s3 of
                     Inl e \<Rightarrow> Inl e
                   | Inr s5 \<Rightarrow> BuildTopDown (Suc 0)
                       (map Some (drop (length [0..<n] div 2) [0..<n])) config
                       (Some (free_addr s)) s5)))"
    unfolding s by (elim exE conjE) simp
  have v: "volume unit_box \<le> minVolume config"
    using assms(1) by (simp add: volume_def unit_box_def)
  have d: "Node_Depth (Suc 0) s3 0 = Inr 0"
    by (simp add: s3(1) IsLeaf_def empty_leaf_def)
  have c: "clear_former_node 0 s3 = Inr s3"
    by (simp add: clear_former_node_def s3(2) unit_objects_def)
  from add_objects_fresh [of s3 0 "empty_leaf unit_box" "[]" "[0..<n]"] s3(1)
  obtain s' n' where a: "add_objects 0 [0..<n] s3 = Inr s'" "nodes s' = (nodes s3)(0 \<mapsto> n')"
    "bv n' = unit_box" "children0 n' = None" "children1 n' = None"
    "olist (objects s') (firstObject n') [0..<n]" "mRoot s' = mRoot s3"
    by (auto simp: empty_leaf_def s3(2) unit_objects_def)
  have "BuildTopDown (Suc (Suc 0)) (map Some [0..<n]) config None (Bvh_init unit_objects) = Inr s'"
    using run v d c a(1) by (simp add: s3(3) s s_def [symmetric])
  moreover have "bvh_tree s' (Some (Leaf 0 unit_box [0..<n]))"
    using a(3-7) by (simp add: bvh_tree_def is_tree_def a(2) s3(3))
  moreover have "Depth (Suc 0) s' = Inr 0" "Size (Suc 0) s' = Inr 1"
    using a(4,7) by (simp_all add: Depth_def Size_def s3(3) a(2) IsLeaf_def)
  ultimately show ?thesis by blast
qed

theorem BuildTopDown_identical_collapses_witness:
  "1 \<le> minVolume cTopDownConfig \<and> (0::nat) < 500
   \<and> (\<exists>s'. BuildTopDown (Suc (Suc 0)) (map Some [0..<500]) cTopDownConfig None
              (Bvh_init unit_objects) = Inr s'
     \<and> bvh_tree s' (Some (Leaf 0 unit_box [0..<500]))
     \<and> Depth (Suc 0) s' = Inr 0 \<and> Size (Suc 0) s' = Inr 1)"
proof -
  have a: "1 \<le> minVolume cTopDownConfig" by (simp add: cTopDownConfig_def)
  have b: "(0::nat) < 500" by simp
  from BuildTopDown_identical_collapses [OF a b] a b show ?thesis by blast
qed

lemma BuildTopDown_default_500:
  "\<exists>s'. BuildTopDown 1500 (map Some [0..<500]) default_config None (Bvh_init unit_objects)
        = Inr s'
     \<and> Depth 7 s' = Inr 6 \<and> Size 7 s' = Inr 127"
proof -
  define s where "s = Bvh_init unit_objects"
  have s: "free_addr s = 0" "objects s = unit_objects"
    by (simp_all add: s_def Bvh_init_def)
  have cfg: "maxDepth default_config = 4294967295" "0 < unat (minObjects default_config)"
    "minVolume default_config < volume unit_box"
    by (simp_all add: default_config_def volume_def unit_box_def)
  have m: "unat (minObjects default_config) = 10"
    by (simp add: default_config_def)
  have p1: "[0..<500] \<noteq> []" "distinct [0..<500]" by simp_all
  have p3: "\<forall>h \<in> set [0..<500]. obj_bv (objects s h) = unit_box \<and> node (objects s h) = None"
    by (simp add: s unit_objects_def)
  have p4: "ordered s" unfolding s_def by (rule ordered_init)
  have p5: "case None of None \<Rightarrow> True
     | Some p \<Rightarrow> (\<exists>pn. nodes s p = Some pn \<and> children1 pn = None)
         \<and> (\<exists>r. mRoot s = Some r \<and> r < free_addr s)" by simp
  have p6: "free_addr s + 2 * length [0..<500] \<le> 4294967295"
    "free_addr s + 3 * length [0..<500] \<le> 1500" by (simp_all add: s)
  from BuildTopDown_same [OF cfg p1 p3 p4 p5 p6]
  obtain s' t where r0: "BuildTopDown 1500 (map Some [0..<500]) default_config None s = Inr s'"
    "tree_at (nodes s') (objects s') (free_addr s) t"
    "height t = split_height (unat (minObjects default_config)) (length [0..<500])"
    "tree_size t = split_size (unat (minObjects default_config)) (length [0..<500])"
    "mRoot s' = (case None :: nat option of None \<Rightarrow> Some (free_addr s) | Some p \<Rightarrow> mRoot s)"
    by blast
  have r: "BuildTopDown 1500 (map Some [0..<500]) default_config None s = Inr s'"
    "tree_at (nodes s') (objects s') 0 t" "height t = 6" "tree_size t = 127"
    "mRoot s' = Some 0"
    using r0 by (simp_all add: m s split_500)
  from Node_Depth_tree [OF r(2), of 7] Node_Size_tree [OF r(2), of 7] r(1,3,4,5)
  show ?thesis
    by (auto simp: Depth_def Size_def s_def)
qed

text \<open>With the default configuration the volume 1 is above \<^verbatim>\<open>minVolume = 0\<close>, so the 500
  objects are halved until at most \<^verbatim>\<open>minObjects = 10\<close> are left: the tree has depth 6 and 127
  nodes.\<close>

theorem BuildTopDown_identical_default_splits:
  "\<not> isl (BuildTopDown 1500 (map Some [0..<500]) default_config None (Bvh_init unit_objects))
   \<and> Depth 7 (projr (BuildTopDown 1500 (map Some [0..<500]) default_config None
         (Bvh_init unit_objects))) = Inr 6
   \<and> Size 7 (projr (BuildTopDown 1500 (map Some [0..<500]) default_config None
         (Bvh_init unit_objects))) = Inr 127"
proof -
  from BuildTopDown_default_500 obtain s' where
    "BuildTopDown 1500 (map Some [0..<500]) default_config None (Bvh_init unit_objects) = Inr s'"
    "Depth 7 s' = Inr 6" "Size 7 s' = Inr 127"
    by blast
  then show ?thesis by simp
qed

section \<open>The object counter over single-object insertions\<close>

subsection \<open>\<^verbatim>\<open>Insert\<close> returns on a tree\<close>


lemma retag_simps [simp]:
  "tree_addr (retag ns t) = tree_addr t"
  "tree_addrs (retag ns t) = tree_addrs t"
  "tree_objects (retag ns t) = tree_objects t"
  "tree_size (retag ns t) = tree_size t"
  by (induction t) auto

lemma retag_weight [simp]: "tree_weight (retag ns t) = tree_weight t"
  by (simp add: tree_weight_def)

lemma subtrees_self [simp]: "t \<in> set (subtrees t)"
  by (cases t) auto



lemma tree_addr_in [simp]: "tree_addr t \<in> set (tree_addrs t)"
  by (cases t) auto



















subsection \<open>Replacing a subtree\<close>












lemma retag_leaves_full [simp]: "leaves_full (retag ns t) = leaves_full t"
  by (induction t) auto



subsection \<open>The three placements keep the tree\<close>









subsection \<open>Sequences of insertions\<close>

lemma insert_inv_count [simp]:
  "insert_inv (s\<lparr>mObjectCount := c\<rparr>) T = insert_inv s T"
  by (simp add: insert_inv_def)

lemma in_tree_count [simp]:
  "in_tree (s\<lparr>mObjectCount := c\<rparr>) T x t = in_tree s T x t"
  by (simp add: in_tree_def)

lemma is_child_count [simp]:
  "is_child (s\<lparr>mObjectCount := c\<rparr>) a b = is_child s a b"
  by (simp add: is_child_def)






lemma Aabb_merge_same [simp]: "Aabb_merge b b = b"
  by (cases "min_c b"; cases "max_c b") (auto simp: Aabb_merge_def prod_eq_iff)








subsection \<open>A tree that is not well formed\<close>

text \<open>The single call needs the tree. The owner of object 0 moves it away and inserts it
  again, with the configuration of the manual insertion tests, then moves it back and
  inserts it once more. The three calls return; the third one appends the object to the
  leaf that still has it as \<^verbatim>\<open>lastObject\<close>, so the object is its own successor. From then
  on \<^verbatim>\<open>ObjectCount\<close> does not come to the end of the list of that leaf, and a fourth call
  of \<^verbatim>\<open>Insert\<close> does not return, whatever the fuel.\<close>

lemma lone_leaf_built:
  "Insert (Suc 0) 0 config1 (Bvh_init row_objects) = Inr lone_leaf"
  by (simp add: Insert_def heap_defs scene_defs row_objects_def lone_leaf_def)

lemma moved_out_built:
  "Insert (Suc 0) 0 config1
     (lone_leaf\<lparr>objects := (objects lone_leaf)(0 := (objects lone_leaf 0)\<lparr>obj_bv := row_box 2\<rparr>)\<rparr>)
     = Inr moved_out"
  by (simp add: Insert_def heap_defs scene_defs place_def ObjectCount_def append_to_leaf_def
      cost_defs create_parent_def new_root_def row_objects_def row_box_def config1_def
      word_cmp lone_leaf_def moved_out_def fun_upd_twist)
    (simp add: numeral_2_eq_2)

lemma moved_back_built:
  "Insert (Suc (Suc 0)) 0 config1
     (moved_out\<lparr>objects := (objects moved_out)(0 := (objects moved_out 0)\<lparr>obj_bv := row_box 0\<rparr>)\<rparr>)
     = Inr moved_back"
  by (simp add: Insert_def heap_defs scene_defs place_def ObjectCount_def append_to_leaf_def
      cost_defs create_parent_def new_root_def row_objects_def row_box_def config1_def
      word_cmp moved_out_def moved_back_def fun_upd_twist)

lemma count_objects_cycle:
  "next (objects s h) = Some h \<Longrightarrow> count_objects fuel s (Some h) c = Inl Out_of_fuel"
  by (induction fuel arbitrary: c) simp_all

lemma Insert_never_returns:
  "Insert fuel 0 config1 moved_back = Inl Out_of_fuel"
proof -
  have c: "ObjectCount f moved_back 0 = Inl Out_of_fuel" for f
    using count_objects_cycle [of moved_back 0 f 0]
    by (simp add: ObjectCount_def moved_back_def empty_leaf_def)
  consider "fuel = 0" | "fuel = Suc 0" | f where "fuel = Suc (Suc f)"
    by (cases fuel rule: nat.exhaust; cases "fuel - 1") auto
  then show ?thesis
  proof cases
    case 1
    then show ?thesis
      by (simp add: Insert_def moved_back_def cost_defs empty_leaf_def)
  next
    case 2
    then show ?thesis
      by (simp add: Insert_def moved_back_def cost_defs empty_leaf_def
          row_objects_def row_box_def)
  next
    case 3
    let ?s = "moved_back\<lparr>mObjectCount := mObjectCount moved_back + 1\<rparr>"
    have "\<exists>nc p l. mk_NodeCosts ?s (Some 1) 0 0 0 = Inr nc
       \<and> search fuel ?s 0 [nc] [] 0 0 = Inr (p, 1, Some l) \<and> nc_node l = 0
       \<and> length p = 2 \<and> rootToNodeCost l < rootToNewParentCost (p ! 1)"
      using 3 by (simp add: moved_back_def cost_defs empty_leaf_def row_objects_def row_box_def)
    then obtain nc p l where s: "mk_NodeCosts ?s (Some 1) 0 0 0 = Inr nc"
      "search fuel ?s 0 [nc] [] 0 0 = Inr (p, 1, Some l)" "nc_node l = 0"
      "rootToNodeCost l < rootToNewParentCost (p ! 1)"
      by blast
    have "place fuel config1 0 p 1 (Some l) ?s = Inl Out_of_fuel"
      using s(3,4) c [of fuel] by (simp add: place_def)
    moreover have "mRoot ?s = Some 1" by (simp add: moved_back_def)
    ultimately show ?thesis using s(1,2) by (simp add: Insert_def Let_def)
  qed
qed

end
